theory Spec2Isabelle
  imports Complex_Main "HOL-Library.Monad_Syntax"
begin

section \<open>Calendar dates (Python's datetime.date and calendar, as the diary uses them)\<close>

text \<open>
  The diary generator computes with \<^verbatim>\<open>datetime.date\<close> and the \<^verbatim>\<open>calendar\<close> module of
  Python's standard library. Their arithmetic is written out here as the library defines it:
  the proleptic Gregorian ordinal of a date, \<^verbatim>\<open>weekday()\<close> with Monday = 0, the validation
  done by the \<^verbatim>\<open>date\<close> constructor and by \<^verbatim>\<open>replace\<close> (a \<^verbatim>\<open>ValueError\<close> is the result
  \<open>None\<close>), and \<^verbatim>\<open>calendar.isleap\<close>, \<^verbatim>\<open>calendar.monthrange\<close>, \<^verbatim>\<open>calendar.monthcalendar\<close>.
  Python's integers are unbounded: years, months and days are \<open>int\<close>, and \<open>mod\<close> on \<open>int\<close>
  is Python's \<^verbatim>\<open>%\<close> for a positive divisor.
\<close>

record date =
  date_year :: int
  date_month :: int
  date_day :: int

definition isleap :: "int \<Rightarrow> bool" where
  "isleap y = (y mod 4 = 0 \<and> (y mod 100 \<noteq> 0 \<or> y mod 400 = 0))"

definition mdays :: "int list" where
  "mdays = [0, 31, 28, 31, 30, 31, 30, 31, 31, 30, 31, 30, 31]"

definition days_in_month :: "int \<Rightarrow> int \<Rightarrow> int" where
  "days_in_month y m = (if m = 2 \<and> isleap y then 29 else mdays ! nat m)"

definition days_before_month_table :: "int list" where
  "days_before_month_table = [- 1, 0, 31, 59, 90, 120, 151, 181, 212, 243, 273, 304, 334]"

definition days_before_year :: "int \<Rightarrow> int" where
  "days_before_year y =
     (let y1 = y - 1 in y1 * 365 + y1 div 4 - y1 div 100 + y1 div 400)"

definition days_before_month :: "int \<Rightarrow> int \<Rightarrow> int" where
  "days_before_month y m =
     days_before_month_table ! nat m + (if m > 2 \<and> isleap y then 1 else 0)"

definition mk_date :: "int \<Rightarrow> int \<Rightarrow> int \<Rightarrow> date option" where
  "mk_date y m d =
     (if 1 \<le> y \<and> y \<le> 9999 \<and> 1 \<le> m \<and> m \<le> 12 \<and> 1 \<le> d \<and> d \<le> days_in_month y m
      then Some \<lparr>date_year = y, date_month = m, date_day = d\<rparr>
      else None)"

definition replace_day :: "date \<Rightarrow> int \<Rightarrow> date option" where
  "replace_day dt d = mk_date (date_year dt) (date_month dt) d"

definition toordinal :: "date \<Rightarrow> int" where
  "toordinal dt =
     days_before_year (date_year dt) + days_before_month (date_year dt) (date_month dt)
       + date_day dt"

definition weekday :: "date \<Rightarrow> int" where
  "weekday dt = (toordinal dt + 6) mod 7"

section \<open>Holiday table\<close>

text \<open>
  A Python \<^verbatim>\<open>dict\<close> keeps its keys in insertion order; assigning to a key that is present
  replaces the value in place, assigning to a new key appends the entry.
\<close>

fun dict_set :: "'k \<Rightarrow> 'v \<Rightarrow> ('k \<times> 'v) list \<Rightarrow> ('k \<times> 'v) list" where
  "dict_set k v [] = [(k, v)]"
| "dict_set k v ((k', v') # kvs) =
     (if k' = k then (k, v) # kvs else (k', v') # dict_set k v kvs)"

text \<open>
  \<^verbatim>\<open>get_us_holidays(year)\<close>: four fixed dates, then the six floating holidays, each computed
  from the weekday of the first (or, for Memorial Day, the last) day of its month.
\<close>

definition get_us_holidays :: "int \<Rightarrow> (date \<times> string) list option" where
  "get_us_holidays yr = do {
     let holidays = [];
     d \<leftarrow> mk_date yr 1 1;
     let holidays = dict_set d ''New Year's Day'' holidays;
     d \<leftarrow> mk_date yr 7 4;
     let holidays = dict_set d ''Independence Day'' holidays;
     d \<leftarrow> mk_date yr 11 11;
     let holidays = dict_set d ''Veterans Day'' holidays;
     d \<leftarrow> mk_date yr 12 25;
     let holidays = dict_set d ''Christmas Day'' holidays;
     jan_1 \<leftarrow> mk_date yr 1 1;
     let days_to_monday = (7 - weekday jan_1) mod 7;
     first_monday \<leftarrow> replace_day jan_1 (1 + days_to_monday);
     mlk_day \<leftarrow> replace_day first_monday (date_day first_monday + 14);
     let holidays = dict_set mlk_day ''Martin Luther King Jr. Day'' holidays;
     feb_1 \<leftarrow> mk_date yr 2 1;
     let days_to_monday = (7 - weekday feb_1) mod 7;
     first_monday \<leftarrow> replace_day feb_1 (1 + days_to_monday);
     presidents_day \<leftarrow> replace_day first_monday (date_day first_monday + 14);
     let holidays = dict_set presidents_day ''Presidents Day'' holidays;
     may_31 \<leftarrow> mk_date yr 5 31;
     let days_back_to_monday = (weekday may_31 + 1) mod 7;
     memorial_day \<leftarrow> replace_day may_31 (31 - days_back_to_monday);
     let holidays = dict_set memorial_day ''Memorial Day'' holidays;
     sep_1 \<leftarrow> mk_date yr 9 1;
     let days_to_monday = (7 - weekday sep_1) mod 7;
     labor_day \<leftarrow> replace_day sep_1 (1 + days_to_monday);
     let holidays = dict_set labor_day ''Labor Day'' holidays;
     oct_1 \<leftarrow> mk_date yr 10 1;
     let days_to_monday = (7 - weekday oct_1) mod 7;
     first_monday \<leftarrow> replace_day oct_1 (1 + days_to_monday);
     columbus_day \<leftarrow> replace_day first_monday (date_day first_monday + 7);
     let holidays = dict_set columbus_day ''Columbus Day'' holidays;
     nov_1 \<leftarrow> mk_date yr 11 1;
     let days_to_thursday = (3 - weekday nov_1) mod 7;
     first_thursday \<leftarrow> replace_day nov_1 (1 + days_to_thursday);
     thanksgiving \<leftarrow> replace_day first_thursday (date_day first_thursday + 21);
     let holidays = dict_set thanksgiving ''Thanksgiving Day'' holidays;
     Some holidays
   }"

text \<open>The dates a table holds under a given holiday name, in table order.\<close>

definition dates_named :: "string \<Rightarrow> (date \<times> string) list \<Rightarrow> date list" where
  "dates_named name holidays = map fst (filter (\<lambda>kv. snd kv = name) holidays)"

section \<open>Calendar module\<close>

text \<open>
  \<^verbatim>\<open>calendar.weekday(year, month, day)\<close> maps a year outside \<^verbatim>\<open>MINYEAR..MAXYEAR\<close> into
  the 400-year cycle before building the date; \<^verbatim>\<open>calendar.monthrange\<close> raises
  \<^verbatim>\<open>IllegalMonthError\<close> (a \<^verbatim>\<open>ValueError\<close>) for a month outside 1..12 and returns the
  weekday of the first day and the number of days of the month.
\<close>

definition calendar_weekday :: "int \<Rightarrow> int \<Rightarrow> int \<Rightarrow> int option" where
  "calendar_weekday y m d =
     (let y' = (if \<not> (1 \<le> y \<and> y \<le> 9999) then 2000 + y mod 400 else y)
      in map_option weekday (mk_date y' m d))"

definition monthrange :: "int \<Rightarrow> int \<Rightarrow> (int \<times> int) option" where
  "monthrange y m =
     (if \<not> (1 \<le> m \<and> m \<le> 12) then None
      else do {
        day1 \<leftarrow> calendar_weekday y m 1;
        let ndays = mdays ! nat m + (if m = 2 \<and> isleap y then 1 else 0);
        Some (day1, ndays)
      })"

text \<open>
  \<^verbatim>\<open>Calendar.itermonthdays\<close> with \<^verbatim>\<open>firstweekday = 0\<close>: zeros for the days of the first week
  before the month, the day numbers, zeros to fill the last week.
  \<^verbatim>\<open>calendar.monthcalendar\<close> cuts that sequence into weeks of seven.
\<close>

definition itermonthdays :: "int \<Rightarrow> int \<Rightarrow> int list option" where
  "itermonthdays y m = do {
     (day1, ndays) \<leftarrow> monthrange y m;
     let days_before = (day1 - 0) mod 7;
     let days_after = (0 - day1 - ndays) mod 7;
     Some (replicate (nat days_before) 0 @ [1..ndays] @ replicate (nat days_after) 0)
   }"

function chunks :: "nat \<Rightarrow> 'a list \<Rightarrow> 'a list list" where
  "chunks n xs = (if n = 0 \<or> xs = [] then [] else take n xs # chunks n (drop n xs))"
  by pat_completeness auto
termination
  by (relation "measure (\<lambda>(n, xs). length xs)") auto

definition monthcalendar :: "int \<Rightarrow> int \<Rightarrow> int list list option" where
  "monthcalendar y m = map_option (chunks 7) (itermonthdays y m)"

section \<open>Formatting integers\<close>

text \<open>Python's \<^verbatim>\<open>str\<close> of an integer, as the f-strings of the anchors use it.\<close>

definition digit_char :: "nat \<Rightarrow> char" where
  "digit_char d = char_of (48 + d)"

function str_nat :: "nat \<Rightarrow> string" where
  "str_nat n = (if n < 10 then [digit_char n] else str_nat (n div 10) @ [digit_char (n mod 10)])"
  by pat_completeness auto
termination
  by (relation "measure id") auto

definition str_int :: "int \<Rightarrow> string" where
  "str_int i = (if i < 0 then CHR ''-'' # str_nat (nat (- i)) else str_nat (nat i))"

section \<open>Rendering surface: bookmarks, links and pages\<close>

text \<open>
  Of the canvas of the rendering library, the generator's navigation uses three calls:
  \<^verbatim>\<open>bookmarkPage(key)\<close> declares an anchor on the page being drawn, \<^verbatim>\<open>linkRect("", dest, rect)\<close>
  puts a link to the anchor \<open>dest\<close> on it, and \<^verbatim>\<open>showPage()\<close> finishes the page and starts
  an empty one. The canvas is the page being drawn and the pages finished so far, in order.
  The drawing calls in between (colours, fonts, text, rectangles, form fields) change neither
  the bookmarks, nor the links, nor the page boundaries, and are left out.
\<close>

record page =
  bookmarks :: "string list"
  links :: "string list"

record canvas =
  current :: page
  pages :: "page list"

definition empty_page :: page where
  "empty_page = \<lparr>bookmarks = [], links = []\<rparr>"

definition new_canvas :: canvas where
  "new_canvas = \<lparr>current = empty_page, pages = []\<rparr>"

definition bookmarkPage :: "string \<Rightarrow> canvas \<Rightarrow> canvas" where
  "bookmarkPage key c = c\<lparr>current := (current c)\<lparr>bookmarks := bookmarks (current c) @ [key]\<rparr>\<rparr>"

definition linkRect :: "string \<Rightarrow> canvas \<Rightarrow> canvas" where
  "linkRect dest c = c\<lparr>current := (current c)\<lparr>links := links (current c) @ [dest]\<rparr>\<rparr>"

definition showPage :: "canvas \<Rightarrow> canvas" where
  "showPage c = \<lparr>current = empty_page, pages = pages c @ [current c]\<rparr>"

section \<open>Page identity and link graph\<close>

definition month_anchor :: "int \<Rightarrow> string" where
  "month_anchor m = ''month_'' @ str_int m"

definition day_anchor :: "int \<Rightarrow> int \<Rightarrow> string" where
  "day_anchor m d = ''day_'' @ str_int m @ ''_'' @ str_int d"

section \<open>Errors\<close>

text \<open>
  The exceptions that leave a function, as values. A function that may raise after it has
  changed the object it works on returns \<open>Inl (e, s)\<close>, the exception with the state
  reached, or \<open>Inr s\<close>. A \<^verbatim>\<open>ValueError\<close> of a date constructor carries no message here.
\<close>

datatype error = ValueError string | AttributeError | KeyboardInterrupt | EOFError | SystemExit int

text \<open>A Python \<^verbatim>\<open>for\<close> loop whose body may raise: the first exception ends the loop.\<close>

fun for_each ::
  "('a \<Rightarrow> 's \<Rightarrow> (error \<times> 's) + 's) \<Rightarrow> 'a list \<Rightarrow> 's \<Rightarrow> (error \<times> 's) + 's" where
  "for_each body [] s = Inr s"
| "for_each body (x # xs) s =
     (case body x s of Inl es \<Rightarrow> Inl es | Inr s' \<Rightarrow> for_each body xs s')"

section \<open>Seasonal backgrounds\<close>

text \<open>
  \<^verbatim>\<open>BackgroundGenerator\<close>. Whether a file exists (\<^verbatim>\<open>os.path.exists\<close>) and whether
  \<^verbatim>\<open>c.drawImage\<close> can load it are facts of the environment of a run, taken as two functions
  of the path that do not change during the run. The generator keeps one flag,
  \<^verbatim>\<open>use_images\<close>, set by \<^verbatim>\<open>check_image_files\<close> when it is constructed and cleared by the first
  image that fails to load. The drawing calls change neither bookmarks nor links nor page
  boundaries: a background leaves the canvas of this model as it is, or raises.
\<close>

datatype season = Winter | Spring | Summer | Autumn

definition get_season_from_month :: "int \<Rightarrow> season" where
  "get_season_from_month month =
     (if month \<in> set [12, 1, 2] then Winter
      else if month \<in> set [3, 4, 5] then Spring
      else if month \<in> set [6, 7, 8] then Summer
      else Autumn)"

definition SEASON_BACKGROUNDS :: "season \<Rightarrow> string" where
  "SEASON_BACKGROUNDS s =
     (case s of
        Winter \<Rightarrow> ''images/winter_bg.jpg''
      | Spring \<Rightarrow> ''images/spring_bg.jpg''
      | Summer \<Rightarrow> ''images/summer_bg.jpg''
      | Autumn \<Rightarrow> ''images/autumn_bg.jpg'')"

record environment =
  path_exists :: "string \<Rightarrow> bool"
  image_loads :: "string \<Rightarrow> bool"

definition check_image_files :: "environment \<Rightarrow> bool" where
  "check_image_files env =
     list_all (\<lambda>s. path_exists env (SEASON_BACKGROUNDS s)) [Winter, Spring, Summer, Autumn]"

text \<open>
  \<^verbatim>\<open>draw_background_image\<close>, on the flag and the canvas: \<open>True\<close> when the image is drawn; when
  \<^verbatim>\<open>drawImage\<close> raises, the flag is cleared and the result is \<open>False\<close>.
\<close>

definition draw_background_image ::
  "environment \<Rightarrow> string \<Rightarrow> bool \<times> canvas \<Rightarrow> bool \<times> bool \<times> canvas" where
  "draw_background_image env image_path d =
     (if image_loads env image_path then (True, d) else (False, (False, snd d)))"

text \<open>
  The generated backgrounds. \<^verbatim>\<open>draw_winter_background\<close> draws its trees with
  \<^verbatim>\<open>c.beginPath()\<close>, \<^verbatim>\<open>c.moveTo(...)\<close>, \<^verbatim>\<open>c.lineTo(...)\<close>: the path operators belong to the
  path object that \<^verbatim>\<open>beginPath\<close> returns, the canvas has no \<^verbatim>\<open>moveTo\<close>, and the first tree
  raises \<^verbatim>\<open>AttributeError\<close>. The other three use \<^verbatim>\<open>rect\<close>, \<^verbatim>\<open>circle\<close>, \<^verbatim>\<open>line\<close> and
  \<^verbatim>\<open>ellipse\<close> only.
\<close>

definition draw_winter_background :: "canvas \<Rightarrow> error + canvas" where
  "draw_winter_background c = Inl AttributeError"

definition draw_spring_background :: "canvas \<Rightarrow> error + canvas" where
  "draw_spring_background c = Inr c"

definition draw_summer_background :: "canvas \<Rightarrow> error + canvas" where
  "draw_summer_background c = Inr c"

definition draw_autumn_background :: "canvas \<Rightarrow> error + canvas" where
  "draw_autumn_background c = Inr c"

text \<open>
  \<^verbatim>\<open>draw_seasonal_background\<close>: the image of the season when images are in use and the image
  loads, else the generated background.
\<close>

definition draw_seasonal_background ::
  "environment \<Rightarrow> int \<Rightarrow> bool \<times> canvas \<Rightarrow> (error \<times> bool \<times> canvas) + bool \<times> canvas" where
  "draw_seasonal_background env month d =
     (let season = get_season_from_month month;
          (returned, use_images, c) =
            (if fst d then draw_background_image env (SEASON_BACKGROUNDS season) d
             else (False, d))
      in if returned then Inr (use_images, c)
         else (case (case season of
                       Winter \<Rightarrow> draw_winter_background c
                     | Spring \<Rightarrow> draw_spring_background c
                     | Summer \<Rightarrow> draw_summer_background c
                     | Autumn \<Rightarrow> draw_autumn_background c) of
                 Inl e \<Rightarrow> Inl (e, use_images, c)
               | Inr c \<Rightarrow> Inr (use_images, c)))"

section \<open>Page functions\<close>

text \<open>
  The page functions work on a pair \<open>d\<close> of the generator's flag \<^verbatim>\<open>use_images\<close> (\<open>fst d\<close>)
  and the canvas (\<open>snd d\<close>). Each draws the seasonal background first. The fonts are taken
  as registered.

  \<^verbatim>\<open>draw_month_tabs(c, current_month=None)\<close>: one tab per month, and a link to the month's
  page on every tab but the one of \<open>current_month\<close>.
\<close>

definition draw_month_tabs :: "int option \<Rightarrow> canvas \<Rightarrow> canvas" where
  "draw_month_tabs current_month c =
     fold (\<lambda>i c. if current_month \<noteq> Some (i + 1) then linkRect (month_anchor (i + 1)) c else c)
       [0..11] c"

text \<open>\<^verbatim>\<open>create_cover_page(c)\<close>: the summer background (month 6), the tabs, the page.\<close>

definition create_cover_page ::
  "environment \<Rightarrow> bool \<times> canvas \<Rightarrow> (error \<times> bool \<times> canvas) + bool \<times> canvas" where
  "create_cover_page env d =
     (case draw_seasonal_background env 6 d of
        Inl ed \<Rightarrow> Inl ed
      | Inr d \<Rightarrow> Inr (fst d, showPage (draw_month_tabs None (snd d))))"

text \<open>
  \<^verbatim>\<open>create_month_page(c, month_num)\<close>: the background, the tabs, the bookmark of the month,
  then the calendar grid: every non-zero cell of \<^verbatim>\<open>calendar.monthcalendar\<close> builds its date
  and links to the day's page.
\<close>

definition month_cell :: "int \<Rightarrow> int \<Rightarrow> int \<Rightarrow> canvas \<Rightarrow> (error \<times> canvas) + canvas" where
  "month_cell yr month_num dy c =
     (if dy = 0 then Inr c
      else (case mk_date yr month_num dy of
              None \<Rightarrow> Inl (ValueError [], c)
            | Some current_date \<Rightarrow> Inr (linkRect (day_anchor month_num dy) c)))"

definition create_month_page ::
  "environment \<Rightarrow> int \<Rightarrow> int \<Rightarrow> bool \<times> canvas \<Rightarrow> (error \<times> bool \<times> canvas) + bool \<times> canvas" where
  "create_month_page env yr month_num d =
     (case draw_seasonal_background env month_num d of
        Inl ed \<Rightarrow> Inl ed
      | Inr d \<Rightarrow>
          (let use_images = fst d;
               c = draw_month_tabs (Some month_num) (snd d);
               c = bookmarkPage (month_anchor month_num) c
           in case monthcalendar yr month_num of
                None \<Rightarrow> Inl (ValueError [], use_images, c)
              | Some cal \<Rightarrow>
                  (case for_each (\<lambda>week c. for_each (month_cell yr month_num) week c) cal c of
                     Inl (e, c) \<Rightarrow> Inl (e, use_images, c)
                   | Inr c \<Rightarrow> Inr (use_images, showPage c))))"

text \<open>
  \<^verbatim>\<open>create_day_page(c, month_num, day_num)\<close>: the background, the tabs with the day's month
  as the current one, the bookmark of the day, the date, the page.
\<close>

definition create_day_page ::
  "environment \<Rightarrow> int \<Rightarrow> int \<Rightarrow> int \<Rightarrow> bool \<times> canvas
     \<Rightarrow> (error \<times> bool \<times> canvas) + bool \<times> canvas" where
  "create_day_page env yr month_num day_num d =
     (case draw_seasonal_background env month_num d of
        Inl ed \<Rightarrow> Inl ed
      | Inr d \<Rightarrow>
          (let use_images = fst d;
               c = draw_month_tabs (Some month_num) (snd d);
               c = bookmarkPage (day_anchor month_num day_num) c
           in case mk_date yr month_num day_num of
                None \<Rightarrow> Inl (ValueError [], use_images, c)
              | Some date_obj \<Rightarrow> Inr (use_images, showPage c)))"

section \<open>Document assembly\<close>

text \<open>
  \<^verbatim>\<open>DiaryGenerator(year, enc)\<close> computes the holiday table and constructs the
  \<^verbatim>\<open>BackgroundGenerator\<close>, whose flag is \<^verbatim>\<open>check_image_files()\<close>.

  \<^verbatim>\<open>generate_diary\<close>, from the flag of the generator on: the cover, the month pages for
  \<^verbatim>\<open>range(1, 13)\<close>, then for every month the day pages for \<^verbatim>\<open>range(1, days_in_month + 1)\<close>,
  with \<^verbatim>\<open>days_in_month\<close> (here \<open>num_days\<close>) the second component of \<^verbatim>\<open>calendar.monthrange\<close>. When every page
  is drawn the result is \<open>Inr\<close> of the finished pages, which \<^verbatim>\<open>c.save()\<close> writes out (every
  page function ends with \<^verbatim>\<open>showPage()\<close>, so no page is pending). When a page function raises,
  \<^verbatim>\<open>c.save()\<close> is not reached and the result is \<open>Inl\<close> of the exception and the pages
  finished until then. The quote at the foot of each page (\<^verbatim>\<open>get_unique_quote\<close>,
  \<^verbatim>\<open>wrap_text\<close>) is drawn text and modelled on its own below.
\<close>

definition DiaryGenerator :: "environment \<Rightarrow> int \<Rightarrow> ((date \<times> string) list \<times> bool) option" where
  "DiaryGenerator env yr =
     (case get_us_holidays yr of
        None \<Rightarrow> None
      | Some holidays \<Rightarrow> Some (holidays, check_image_files env))"

definition day_pages_of_month ::
  "environment \<Rightarrow> int \<Rightarrow> int \<Rightarrow> bool \<times> canvas \<Rightarrow> (error \<times> bool \<times> canvas) + bool \<times> canvas" where
  "day_pages_of_month env yr mon d =
     (case monthrange yr mon of
        None \<Rightarrow> Inl (ValueError [], d)
      | Some (day1, num_days) \<Rightarrow>
          for_each (\<lambda>dy d. create_day_page env yr mon dy d) [1..num_days] d)"

definition generate_diary :: "environment \<Rightarrow> int \<Rightarrow> bool \<Rightarrow> (error \<times> page list) + page list" where
  "generate_diary env yr use_images =
     (case create_cover_page env (use_images, new_canvas) of
        Inl (e, u, c) \<Rightarrow> Inl (e, pages c)
      | Inr d \<Rightarrow>
          (case for_each (\<lambda>mon d. create_month_page env yr mon d) [1..12] d of
             Inl (e, u, c) \<Rightarrow> Inl (e, pages c)
           | Inr d \<Rightarrow>
               (case for_each (\<lambda>mon d. day_pages_of_month env yr mon d) [1..12] d of
                  Inl (e, u, c) \<Rightarrow> Inl (e, pages c)
                | Inr (u, c) \<Rightarrow> Inr (pages c))))"

text \<open>The pages finished by a run of \<^verbatim>\<open>generate_diary\<close>, whether it returned or raised.\<close>

definition pages_finished :: "(error \<times> page list) + page list \<Rightarrow> page list" where
  "pages_finished r = (case r of Inl (e, ps) \<Rightarrow> ps | Inr ps \<Rightarrow> ps)"

text \<open>
  The three kinds of page written out, with their bookmarks and their links in the order in
  which they are put on the page, and the order of the pages of a document, each with the
  month whose seasonal background it draws. That the page functions and \<^verbatim>\<open>generate_diary\<close>
  draw these pages in this order, as far as the backgrounds let them, is proved below
  (\<open>create_cover_page_eq\<close>, \<open>create_month_page_eq\<close>, \<open>create_day_page_eq\<close>,
  \<open>generate_diary_eq\<close>).
\<close>

definition cover_page :: page where
  "cover_page = \<lparr>bookmarks = [], links = map month_anchor [1..12]\<rparr>"

definition month_page :: "int \<Rightarrow> int \<Rightarrow> page" where
  "month_page yr m =
     \<lparr>bookmarks = [month_anchor m],
      links = map month_anchor (filter (\<lambda>i. i \<noteq> m) [1..12])
                @ map (day_anchor m) [1..days_in_month yr m]\<rparr>"

definition day_page :: "int \<Rightarrow> int \<Rightarrow> page" where
  "day_page m d =
     \<lparr>bookmarks = [day_anchor m d],
      links = map month_anchor (filter (\<lambda>i. i \<noteq> m) [1..12])\<rparr>"

definition schedule :: "int \<Rightarrow> (int \<times> page) list" where
  "schedule yr =
     (6, cover_page) # map (\<lambda>m. (m, month_page yr m)) [1..12]
       @ concat (map (\<lambda>m. map (\<lambda>d. (m, day_page m d)) [1..days_in_month yr m]) [1..12])"

text \<open>
  Whether the image of the season of a month loads; one page of the schedule, on the flag
  and the pages finished: the page is added unless its background raises, which the winter
  background does when no image is drawn; the images are usable when the flag is set and
  all four load.
\<close>

definition background_loads :: "environment \<Rightarrow> int \<Rightarrow> bool" where
  "background_loads env month = image_loads env (SEASON_BACKGROUNDS (get_season_from_month month))"

definition draw_page ::
  "environment \<Rightarrow> int \<times> page \<Rightarrow> bool \<times> page list
     \<Rightarrow> (error \<times> bool \<times> page list) + bool \<times> page list" where
  "draw_page env mp s =
     (if get_season_from_month (fst mp) = Winter \<and> \<not> (fst s \<and> background_loads env (fst mp))
      then Inl (AttributeError, False, snd s)
      else Inr (fst s \<and> background_loads env (fst mp), snd s @ [snd mp]))"

definition images_usable :: "environment \<Rightarrow> bool \<Rightarrow> bool" where
  "images_usable env use_images =
     (use_images
      \<and> list_all (\<lambda>s. image_loads env (SEASON_BACKGROUNDS s)) [Winter, Spring, Summer, Autumn])"

text \<open>
  The document of a year, all pages in order; a result on the pages finished read as a
  result on the canvas that holds them with an empty page being drawn; and what
  \<^verbatim>\<open>generate_diary\<close> keeps of a run over the schedule.
\<close>

definition document :: "int \<Rightarrow> page list" where
  "document yr =
     cover_page # map (month_page yr) [1..12]
       @ concat (map (\<lambda>m. map (day_page m) [1..days_in_month yr m]) [1..12])"

definition on_canvas ::
  "(error \<times> bool \<times> page list) + bool \<times> page list \<Rightarrow> (error \<times> bool \<times> canvas) + bool \<times> canvas" where
  "on_canvas r =
     (case r of
        Inl (e, u, ps) \<Rightarrow> Inl (e, u, \<lparr>current = empty_page, pages = ps\<rparr>)
      | Inr (u, ps) \<Rightarrow> Inr (u, \<lparr>current = empty_page, pages = ps\<rparr>))"

definition outcome ::
  "(error \<times> bool \<times> page list) + bool \<times> page list \<Rightarrow> (error \<times> page list) + page list" where
  "outcome r = (case r of Inl (e, u, ps) \<Rightarrow> Inl (e, ps) | Inr (u, ps) \<Rightarrow> Inr ps)"

text \<open>
  The single page a page function finishes on a fresh canvas, if it finishes one. Two
  environments: every file present and loading, and no file at all.
\<close>

definition rendered :: "(error \<times> bool \<times> canvas) + bool \<times> canvas \<Rightarrow> page option" where
  "rendered r =
     (case r of
        Inl ed \<Rightarrow> None
      | Inr (u, c) \<Rightarrow> (case pages c of [p] \<Rightarrow> Some p | _ \<Rightarrow> None))"

definition all_images :: environment where
  "all_images = \<lparr>path_exists = (\<lambda>p. True), image_loads = (\<lambda>p. True)\<rparr>"

definition no_images :: environment where
  "no_images = \<lparr>path_exists = (\<lambda>p. False), image_loads = (\<lambda>p. False)\<rparr>"

section \<open>Strings\<close>

text \<open>
  Strings are lists of characters with code points below 256. On these, Python's
  \<^verbatim>\<open>str.isspace\<close>, \<^verbatim>\<open>isupper\<close>, \<^verbatim>\<open>islower\<close>, \<^verbatim>\<open>isdigit\<close> and \<^verbatim>\<open>lower\<close> are the following.
\<close>

definition isspace :: "char \<Rightarrow> bool" where
  "isspace c = ((of_char c :: nat) \<in> {9, 10, 11, 12, 13, 28, 29, 30, 31, 32, 133, 160})"

definition isupper :: "char \<Rightarrow> bool" where
  "isupper c = (let n = (of_char c :: nat) in
     (65 \<le> n \<and> n \<le> 90) \<or> (192 \<le> n \<and> n \<le> 214) \<or> (216 \<le> n \<and> n \<le> 222))"

definition islower :: "char \<Rightarrow> bool" where
  "islower c = (let n = (of_char c :: nat) in
     (97 \<le> n \<and> n \<le> 122) \<or> n = 170 \<or> n = 181 \<or> n = 186 \<or> (223 \<le> n \<and> n \<le> 246)
       \<or> (248 \<le> n \<and> n \<le> 255))"

definition isdigit :: "char \<Rightarrow> bool" where
  "isdigit c = (let n = (of_char c :: nat) in
     (48 \<le> n \<and> n \<le> 57) \<or> n = 178 \<or> n = 179 \<or> n = 185)"

definition lower :: "string \<Rightarrow> string" where
  "lower s = map (\<lambda>c. if isupper c then char_of ((of_char c :: nat) + 32) else c) s"

definition strip :: "string \<Rightarrow> string" where
  "strip s = rev (dropWhile isspace (rev (dropWhile isspace s)))"

text \<open>
  \<^verbatim>\<open>text.split()\<close> without arguments: the maximal runs of non-whitespace characters, in
  order. The second argument is the word read so far.
\<close>

fun split_from :: "string \<Rightarrow> string \<Rightarrow> string list" where
  "split_from [] w = (if w = [] then [] else [w])"
| "split_from (c # cs) w =
     (if isspace c then (if w = [] then split_from cs [] else w # split_from cs [])
      else split_from cs (w @ [c]))"

definition split :: "string \<Rightarrow> string list" where
  "split s = split_from s []"

text \<open>A word: a non-empty string without whitespace.\<close>

definition is_word :: "string \<Rightarrow> bool" where
  "is_word w = (w \<noteq> [] \<and> \<not> list_ex isspace w)"

text \<open>\<^verbatim>\<open>sep.join(words)\<close>.\<close>

fun join :: "string \<Rightarrow> string list \<Rightarrow> string" where
  "join sep [] = []"
| "join sep [w] = w"
| "join sep (w # v # ws) = w @ sep @ join sep (v # ws)"

text \<open>\<^verbatim>\<open>pattern in s\<close>: \<open>pattern\<close> occurs in \<open>s\<close> as a contiguous substring.\<close>

fun contains :: "string \<Rightarrow> string \<Rightarrow> bool" where
  "contains [] pattern = (pattern = [])"
| "contains (c # cs) pattern =
     (take (length pattern) (c # cs) = pattern \<or> contains cs pattern)"

section \<open>Text layout\<close>

text \<open>
  \<^verbatim>\<open>wrap_text(text, max_width, font_name, font_size)\<close>. The test of the loop,
  \<^verbatim>\<open>len(test_line) * font_size * 0.6 <= max_width\<close>, is floating-point arithmetic; during
  one call \<^verbatim>\<open>font_size\<close> and \<^verbatim>\<open>max_width\<close> are fixed, so the test is a predicate on the
  length of the candidate line. That predicate is the parameter \<open>fits\<close>: what is proved
  for every \<open>fits\<close> holds for the test Python evaluates. \<open>wrap_loop\<close> is the \<^verbatim>\<open>for\<close> loop,
  with the variables \<^verbatim>\<open>lines\<close> and \<^verbatim>\<open>current_line\<close> as accumulators.
\<close>

fun wrap_loop ::
  "(nat \<Rightarrow> bool) \<Rightarrow> string list \<Rightarrow> string list \<Rightarrow> string list \<Rightarrow> string list \<times> string list"
where
  "wrap_loop fits [] lines current_line = (lines, current_line)"
| "wrap_loop fits (word # words) lines current_line =
     (let test_line = join '' '' (current_line @ [word]) in
      if fits (length test_line) then wrap_loop fits words lines (current_line @ [word])
      else wrap_loop fits words
             (if current_line \<noteq> [] then lines @ [join '' '' current_line] else lines) [word])"

definition wrap_text :: "(nat \<Rightarrow> bool) \<Rightarrow> string \<Rightarrow> string list" where
  "wrap_text fits text =
     (let (lines, current_line) = wrap_loop fits (split text) [] [] in
      if current_line \<noteq> [] then lines @ [join '' '' current_line] else lines)"

text \<open>
  The width test over the rationals, for widths and font sizes that are exact
  (\<^verbatim>\<open>0.6\<close> read as 6/10).
\<close>

definition width_test :: "rat \<Rightarrow> rat \<Rightarrow> nat \<Rightarrow> bool" where
  "width_test max_width font_size n = (of_nat n * font_size * (6 / 10) \<le> max_width)"

section \<open>Quote rotation\<close>

definition WISDOM_QUOTES :: "string list" where
  "WISDOM_QUOTES = [
     ''The journey of a thousand miles begins with one step. - Lao Tzu'',
     ''In the middle of difficulty lies opportunity. - Albert Einstein'',
     ''Life is what happens when you're busy making other plans. - John Lennon'',
     ''The only way to do great work is to love what you do. - Steve Jobs'',
     ''Success is not final, failure is not fatal: it is the courage to continue that counts. - Winston Churchill'',
     ''Be yourself; everyone else is already taken. - Oscar Wilde'',
     ''The future belongs to those who believe in the beauty of their dreams. - Eleanor Roosevelt'',
     ''It is during our darkest moments that we must focus to see the light. - Aristotle'',
     ''The best time to plant a tree was 20 years ago. The second best time is now. - Chinese Proverb'',
     ''Your time is limited, don't waste it living someone else's life. - Steve Jobs'',
     ''The only impossible journey is the one you never begin. - Tony Robbins'',
     ''In the end, we will remember not the words of our enemies, but the silence of our friends. - Martin Luther King Jr.'',
     ''The greatest glory in living lies not in never falling, but in rising every time we fall. - Nelson Mandela'',
     ''The way to get started is to quit talking and begin doing. - Walt Disney'',
     ''Life is really simple, but we insist on making it complicated. - Confucius'',
     ''May you live in interesting times. - Ancient Curse'',
     ''The only true wisdom is in knowing you know nothing. - Socrates'',
     ''Yesterday is history, tomorrow is a mystery, today is a gift. - Eleanor Roosevelt'',
     ''Do not go where the path may lead, go instead where there is no path and leave a trail. - Ralph Waldo Emerson'',
     ''Believe you can and you're halfway there. - Theodore Roosevelt'',
     ''The mind is everything. What you think you become. - Buddha'',
     ''A person who never made a mistake never tried anything new. - Albert Einstein'',
     ''Happiness is not something ready made. It comes from your own actions. - Dalai Lama'',
     ''The purpose of our lives is to be happy. - Dalai Lama'',
     ''Life is 10% what happens to you and 90% how you react to it. - Charles R. Swindoll'',
     ''The only way out is through. - Robert Frost'',
     ''What lies behind us and what lies before us are tiny matters compared to what lies within us. - Ralph Waldo Emerson'',
     ''You miss 100% of the shots you don't take. - Wayne Gretzky'',
     ''Whether you think you can or you think you can't, you're right. - Henry Ford'',
     ''The best revenge is massive success. - Frank Sinatra'',
     ''Do something today that your future self will thank you for. - Sean Patrick Flanery'',
     ''The secret of change is to focus all of your energy on building the new, not fighting the old. - Socrates'',
     ''The most difficult thing is the decision to act, the rest is merely tenacity. - Amelia Earhart'',
     ''Every moment is a fresh beginning. - T.S. Eliot'',
     ''You are never too old to set another goal or to dream a new dream. - C.S. Lewis'',
     ''Success is walking from failure to failure with no loss of enthusiasm. - Winston Churchill'',
     ''The difference between ordinary and extraordinary is that little extra. - Jimmy Johnson'',
     ''Don't count the days, make the days count. - Muhammad Ali'',
     ''If you want to live a happy life, tie it to a goal, not to people or things. - Albert Einstein'',
     ''Everything you've ever wanted is on the other side of fear. - George Addair''
   ]"

text \<open>
  \<^verbatim>\<open>get_unique_quote\<close>, on the set \<^verbatim>\<open>quotes_used\<close> of the generator; it returns the quote
  and the new set. \<^verbatim>\<open>random.choice(seq)\<close> returns \<^verbatim>\<open>seq[i]\<close> for an index \<open>i\<close> below
  \<^verbatim>\<open>len(seq)\<close> drawn by the random source: the number drawn is the argument \<open>r\<close>, taken
  modulo the length, so that every index can be drawn and no other.
\<close>

definition random_choice :: "nat \<Rightarrow> 'a list \<Rightarrow> 'a" where
  "random_choice r seq = seq ! (r mod length seq)"

definition get_unique_quote :: "nat \<Rightarrow> string set \<Rightarrow> string \<times> string set" where
  "get_unique_quote r quotes_used =
     (let available_quotes = filter (\<lambda>q. q \<notin> quotes_used) WISDOM_QUOTES;
          (quotes_used, available_quotes) =
            (if available_quotes = [] then ({}, WISDOM_QUOTES)
             else (quotes_used, available_quotes));
          quote = random_choice r available_quotes
      in (quote, insert quote quotes_used))"

text \<open>
  Successive calls of \<^verbatim>\<open>get_unique_quote\<close>, one per number drawn: the quotes returned, in
  order, and the set \<^verbatim>\<open>quotes_used\<close> after the last call.
\<close>

fun quote_calls :: "nat list \<Rightarrow> string set \<Rightarrow> string list \<times> string set" where
  "quote_calls [] quotes_used = ([], quotes_used)"
| "quote_calls (r # rs) quotes_used =
     (let (quote, quotes_used) = get_unique_quote r quotes_used;
          (quotes, quotes_used) = quote_calls rs quotes_used
      in (quote # quotes, quotes_used))"

section \<open>Password acquisition\<close>

text \<open>
  Interactive input is the sequence of what the user does at the successive prompts: a line
  is entered, the prompt is interrupted (\<^verbatim>\<open>KeyboardInterrupt\<close>), or the input has ended
  (\<^verbatim>\<open>EOFError\<close>). When the sequence is used up, the input has ended.
\<close>

datatype input_event = Entered string | Interrupt | EndOfInput

fun prompt :: "input_event list \<Rightarrow> input_event \<times> input_event list" where
  "prompt [] = (EndOfInput, [])"
| "prompt (e # es) = (e, es)"

text \<open>
  One round of the \<^verbatim>\<open>while\<close> loop of \<^verbatim>\<open>get_password\<close>, after \<^verbatim>\<open>attempts += 1\<close>: the body
  of the \<^verbatim>\<open>try\<close>. The password is accepted (\<^verbatim>\<open>return password\<close>), the round is rejected
  (every \<^verbatim>\<open>continue\<close>, also the one of \<^verbatim>\<open>except Exception\<close>), or the entry is cancelled
  (\<^verbatim>\<open>except KeyboardInterrupt\<close>).
\<close>

datatype attempt_result = Accepted string | Rejected | Cancelled

definition password_attempt :: "int \<Rightarrow> input_event list \<Rightarrow> attempt_result \<times> input_event list" where
  "password_attempt min_length ins =
     (case prompt ins of
        (Interrupt, ins) \<Rightarrow> (Cancelled, ins)
      | (EndOfInput, ins) \<Rightarrow> (Rejected, ins)
      | (Entered password, ins) \<Rightarrow>
          if int (length password) < min_length then (Rejected, ins)
          else if strip password = [] then (Rejected, ins)
          else (case prompt ins of
                  (Interrupt, ins) \<Rightarrow> (Cancelled, ins)
                | (EndOfInput, ins) \<Rightarrow> (Rejected, ins)
                | (Entered confirm_password, ins) \<Rightarrow>
                    if password \<noteq> confirm_password then (Rejected, ins)
                    else (Accepted password, ins)))"

text \<open>
  \<^verbatim>\<open>get_password(min_length=4, max_attempts=3)\<close>. The result is the password or the error
  raised, with the final value of \<^verbatim>\<open>attempts\<close> and the input left.
\<close>

function get_password_loop ::
  "int \<Rightarrow> int \<Rightarrow> int \<Rightarrow> input_event list \<Rightarrow> (error + string) \<times> int \<times> input_event list"
where
  "get_password_loop min_length max_attempts attempts ins =
     (if attempts < max_attempts then
        (case password_attempt min_length ins of
           (Accepted password, ins') \<Rightarrow> (Inr password, attempts + 1, ins')
         | (Cancelled, ins') \<Rightarrow> (Inl (ValueError ''Password entry cancelled''), attempts + 1, ins')
         | (Rejected, ins') \<Rightarrow> get_password_loop min_length max_attempts (attempts + 1) ins')
      else (Inl (ValueError (''Failed to get valid password after '' @ str_int max_attempts
                   @ '' attempts'')), attempts, ins))"
  by pat_completeness auto
termination
  by (relation "measure (\<lambda>(min_length, max_attempts, attempts, ins). nat (max_attempts - attempts))")
    auto

definition get_password ::
  "int \<Rightarrow> int \<Rightarrow> input_event list \<Rightarrow> (error + string) \<times> int \<times> input_event list" where
  "get_password min_length max_attempts ins = get_password_loop min_length max_attempts 0 ins"

text \<open>
  The input left after \<open>n\<close> rounds that are all rejected; \<open>None\<close> when one of the \<open>n\<close>
  rounds is accepted or cancelled. The validation rules of a round, on the password alone.
\<close>

fun rejected_rounds :: "int \<Rightarrow> nat \<Rightarrow> input_event list \<Rightarrow> input_event list option" where
  "rejected_rounds min_length 0 ins = Some ins"
| "rejected_rounds min_length (Suc n) ins =
     (case password_attempt min_length ins of
        (Rejected, ins') \<Rightarrow> rejected_rounds min_length n ins'
      | (Accepted password, ins') \<Rightarrow> None
      | (Cancelled, ins') \<Rightarrow> None)"

definition valid_password :: "int \<Rightarrow> string \<Rightarrow> bool" where
  "valid_password min_length password =
     (\<not> int (length password) < min_length \<and> strip password \<noteq> [])"

text \<open>\<^verbatim>\<open>validate_password_strength\<close>; the feedback messages are named, not spelled out.\<close>

datatype feedback = UseEightCharacters | MixCharacterKinds | AddVariety | AvoidCommonPatterns

definition validate_password_strength :: "string \<Rightarrow> bool \<times> feedback list" where
  "validate_password_strength password =
     (let feedback = [];
          is_strong = True;
          (is_strong, feedback) =
            (if length password < 8
             then (if length password < 6 then False else is_strong,
                   feedback @ [UseEightCharacters])
             else (is_strong, feedback));
          has_upper = list_ex isupper password;
          has_lower = list_ex islower password;
          has_digit = list_ex isdigit password;
          has_special = list_ex (\<lambda>c. c \<in> set ''!@#$%^&*()_+-=[]{}|;:,.<>?'') password;
          char_types = sum_list (map of_bool [has_upper, has_lower, has_digit, has_special]) :: nat;
          (is_strong, feedback) =
            (if char_types < 2 then (False, feedback @ [MixCharacterKinds])
             else if char_types < 3 then (is_strong, feedback @ [AddVariety])
             else (is_strong, feedback));
          common_patterns = [''123'', ''abc'', ''password'', ''qwerty'', ''111'', ''000''];
          (is_strong, feedback) =
            (if list_ex (\<lambda>pattern. contains (lower password) pattern) common_patterns
             then (False, feedback @ [AvoidCommonPatterns])
             else (is_strong, feedback))
      in (is_strong, feedback))"

text \<open>
  The inner loop of \<^verbatim>\<open>get_password_with_strength_check\<close>: \<^verbatim>\<open>input\<close> is read until the
  answer is yes (\<open>True\<close>: keep the password) or no/retry (\<open>False\<close>); an exception of
  \<^verbatim>\<open>input\<close> is not caught.
\<close>

fun ask_continue :: "input_event list \<Rightarrow> (error + bool) \<times> input_event list" where
  "ask_continue [] = (Inl EOFError, [])"
| "ask_continue (EndOfInput # ins) = (Inl EOFError, ins)"
| "ask_continue (Interrupt # ins) = (Inl KeyboardInterrupt, ins)"
| "ask_continue (Entered answer # ins) =
     (let choice = strip (lower answer) in
      if choice \<in> set [''y'', ''yes''] then (Inr True, ins)
      else if choice \<in> set [''n'', ''no'', ''r'', ''retry''] then (Inr False, ins)
      else ask_continue ins)"

lemma password_attempt_length:
  "password_attempt min_length ins = (r, ins') \<Longrightarrow> length ins' \<le> length ins"
  by (cases ins; cases "tl ins")
    (auto simp: password_attempt_def split: input_event.splits if_splits)

lemma get_password_loop_length:
  "get_password_loop min_length max_attempts attempts ins = (r, a, ins') \<Longrightarrow>
   length ins' \<le> length ins"
proof (induction min_length max_attempts attempts ins rule: get_password_loop.induct)
  case (1 min_length max_attempts attempts ins)
  show ?case
  proof (cases "attempts < max_attempts")
    case False
    with "1.prems" show ?thesis by simp
  next
    case True
    obtain res ins1 where pa: "password_attempt min_length ins = (res, ins1)"
      by (cases "password_attempt min_length ins")
    have le: "length ins1 \<le> length ins"
      using pa by (rule password_attempt_length)
    show ?thesis
    proof (cases res)
      case Rejected
      with "1.prems" True pa
      have "get_password_loop min_length max_attempts (attempts + 1) ins1 = (r, a, ins')"
        by simp
      with "1.IH" [OF True pa [symmetric, unfolded Rejected] ] Rejected pa le show ?thesis
        by simp
    next
      case (Accepted p)
      with "1.prems" True pa le show ?thesis by simp
    next
      case Cancelled
      with "1.prems" True pa le show ?thesis by simp
    qed
  qed
qed

lemma get_password_length:
  "(r, a, ins') = get_password min_length max_attempts ins \<Longrightarrow> length ins' \<le> length ins"
  unfolding get_password_def by (rule get_password_loop_length) (rule sym)

lemma ask_continue_length:
  "(Inr b, ins') = ask_continue ins \<Longrightarrow> length ins' < length ins"
  by (induction ins rule: ask_continue.induct) (auto simp: Let_def split: if_splits)

text \<open>
  \<^verbatim>\<open>get_password_with_strength_check\<close>: \<^verbatim>\<open>get_password()\<close> with its default arguments,
  again after every answer no/retry; an error of \<^verbatim>\<open>get_password\<close> is not caught.
\<close>

function get_password_with_strength_check ::
  "input_event list \<Rightarrow> (error + string) \<times> input_event list"
where
  "get_password_with_strength_check ins =
     (case get_password 4 3 ins of
        (Inl e, attempts, ins') \<Rightarrow> (Inl e, ins')
      | (Inr password, attempts, ins') \<Rightarrow>
          if fst (validate_password_strength password) then (Inr password, ins')
          else (case ask_continue ins' of
                  (Inl e, ins'') \<Rightarrow> (Inl e, ins'')
                | (Inr True, ins'') \<Rightarrow> (Inr password, ins'')
                | (Inr False, ins'') \<Rightarrow> get_password_with_strength_check ins''))"
  by pat_completeness auto
termination
  by (relation "measure length")
    (auto dest!: get_password_length ask_continue_length)

section \<open>Encryption settings and the command line\<close>

record encryption =
  userPassword :: string
  canPrint :: int
  canModify :: int
  canCopy :: int
  canAnnotate :: int

definition create_encryption :: "string \<Rightarrow> bool \<Rightarrow> bool \<Rightarrow> bool \<Rightarrow> bool \<Rightarrow> encryption" where
  "create_encryption password allow_printing allow_copying allow_modification allow_annotation =
     \<lparr>userPassword = password,
      canPrint = (if allow_printing then 1 else 0),
      canModify = (if allow_modification then 1 else 0),
      canCopy = (if allow_copying then 1 else 0),
      canAnnotate = (if allow_annotation then 1 else 0)\<rparr>"

definition create_high_security_encryption :: "string \<Rightarrow> encryption" where
  "create_high_security_encryption password = create_encryption password True False False True"

definition get_secure_password_for_diary :: "input_event list \<Rightarrow> error + encryption" where
  "get_secure_password_for_diary ins =
     (case get_password_with_strength_check ins of
        (Inl e, ins') \<Rightarrow> Inl e
      | (Inr password, ins') \<Rightarrow> Inr (create_high_security_encryption password))"

text \<open>
  \<^verbatim>\<open>main\<close>, from the year read off the command line on (fonts registered, one argument, an
  integer): the range check, the credential, the generator, the document.
\<close>

definition main ::
  "environment \<Rightarrow> int \<Rightarrow> input_event list \<Rightarrow> error + encryption \<times> page list" where
  "main env yr ins =
     (if yr < 1900 \<or> yr > 2100 then Inl (SystemExit 1)
      else (case get_secure_password_for_diary ins of
              Inl e \<Rightarrow> Inl e
            | Inr enc \<Rightarrow>
                (case DiaryGenerator env yr of
                   None \<Rightarrow> Inl (ValueError [])
                 | Some (holidays, use_images) \<Rightarrow>
                     (case generate_diary env yr use_images of
                        Inl (e, ps) \<Rightarrow> Inl e
                      | Inr diary \<Rightarrow> Inr (enc, diary)))))"

section \<open>Properties of the calendar arithmetic\<close>

lemma month_cases:
  "1 \<le> (m::int) \<Longrightarrow> m \<le> 12 \<Longrightarrow>
   m = 1 \<or> m = 2 \<or> m = 3 \<or> m = 4 \<or> m = 5 \<or> m = 6 \<or> m = 7 \<or> m = 8 \<or> m = 9 \<or> m = 10
     \<or> m = 11 \<or> m = 12"
  by arith

lemma days_in_month_ge_28: "1 \<le> m \<Longrightarrow> m \<le> 12 \<Longrightarrow> 28 \<le> days_in_month y m"
  using month_cases [of m] by (auto simp: days_in_month_def mdays_def)

lemma mk_date_ok:
  "1 \<le> y \<Longrightarrow> y \<le> 9999 \<Longrightarrow> 1 \<le> m \<Longrightarrow> m \<le> 12 \<Longrightarrow> 1 \<le> d \<Longrightarrow> d \<le> 28 \<Longrightarrow>
   mk_date y m d = Some \<lparr>date_year = y, date_month = m, date_day = d\<rparr>"
  using days_in_month_ge_28 [of m y] by (simp add: mk_date_def)

lemma mk_date_may:
  "1 \<le> y \<Longrightarrow> y \<le> 9999 \<Longrightarrow> 1 \<le> d \<Longrightarrow> d \<le> 31 \<Longrightarrow>
   mk_date y 5 d = Some \<lparr>date_year = y, date_month = 5, date_day = d\<rparr>"
  by (simp add: mk_date_def days_in_month_def mdays_def)

lemma mod7_first:
  "(K + (1 + (t - (K + 1 + 6) mod 7) mod 7 + c) + 6) mod 7 = (t + c) mod (7::int)"
proof -
  have "(K + (1 + (t - (K + 1 + 6) mod 7) mod 7 + c) + 6) mod 7
      = ((K + 1 + c + 6) + (t - (K + 1 + 6) mod 7) mod 7) mod 7"
    by (simp only: ac_simps)
  also have "\<dots> = ((K + 1 + c + 6) + (t - (K + 1 + 6) mod 7)) mod 7"
    by (rule mod_add_right_eq)
  also have "\<dots> = (((K + 1 + c + 6) + t) - (K + 1 + 6) mod 7) mod 7"
    by (simp only: add_diff_eq)
  also have "\<dots> = (((K + 1 + c + 6) + t) - (K + 1 + 6)) mod 7"
    by (rule mod_diff_right_eq)
  also have "((K + 1 + c + 6) + t) - (K + 1 + 6) = t + c"
    by simp
  finally show ?thesis .
qed

lemma mod7_last: "(K + (31 - ((K + 31 + 6) mod 7 + 1) mod 7) + 6) mod 7 = (6::int)"
proof -
  have "((K + 31 + 6) mod 7 + 1) mod 7 = ((K + 31 + 6) + 1) mod 7"
    by (rule mod_add_left_eq)
  then have "(K + (31 - ((K + 31 + 6) mod 7 + 1) mod 7) + 6) mod 7
      = (K + (31 - ((K + 31 + 6) + 1) mod 7) + 6) mod 7"
    by (simp only:)
  also have "\<dots> = ((K + 31 + 6) - ((K + 31 + 6) + 1) mod 7) mod 7"
    by (simp only: ac_simps add_diff_eq diff_add_eq)
  also have "\<dots> = ((K + 31 + 6) - ((K + 31 + 6) + 1)) mod 7"
    by (rule mod_diff_right_eq)
  also have "(K + 31 + 6) - ((K + 31 + 6) + 1) = - 1"
    by simp
  finally show ?thesis by simp
qed

text \<open>
  The weekday reached from the first of a month by the source's offset
  \<^verbatim>\<open>(t - first.weekday()) % 7\<close> plus \<open>c\<close> more days, and the weekday reached from the 31st by
  going back \<^verbatim>\<open>(last.weekday() + 1) % 7\<close> days.
\<close>

lemma weekday_first_plus:
  "weekday \<lparr>date_year = y, date_month = m,
      date_day = 1 + (t - weekday \<lparr>date_year = y, date_month = m, date_day = 1\<rparr>) mod 7 + c\<rparr>
   = (t + c) mod 7"
  unfolding weekday_def toordinal_def date.select_convs by (rule mod7_first)

lemma weekday_last_minus:
  "weekday \<lparr>date_year = y, date_month = m,
      date_day = 31 - (weekday \<lparr>date_year = y, date_month = m, date_day = 31\<rparr> + 1) mod 7\<rparr>
   = 6"
  unfolding weekday_def toordinal_def date.select_convs by (rule mod7_last)

section \<open>Properties of the holiday table\<close>

text \<open>
  The table of a year, entry by entry in insertion order, with the six offsets of the
  floating holidays named: no date is entered twice, so no entry is overwritten.
\<close>

lemma get_us_holidays_table:
  assumes y: "1 \<le> y" "y \<le> 9999"
  obtains a b c d e f where
    "a = (7 - weekday \<lparr>date_year = y, date_month = 1, date_day = 1\<rparr>) mod 7"
    "b = (7 - weekday \<lparr>date_year = y, date_month = 2, date_day = 1\<rparr>) mod 7"
    "c = (weekday \<lparr>date_year = y, date_month = 5, date_day = 31\<rparr> + 1) mod 7"
    "d = (7 - weekday \<lparr>date_year = y, date_month = 9, date_day = 1\<rparr>) mod 7"
    "e = (7 - weekday \<lparr>date_year = y, date_month = 10, date_day = 1\<rparr>) mod 7"
    "f = (3 - weekday \<lparr>date_year = y, date_month = 11, date_day = 1\<rparr>) mod 7"
    "0 \<le> a" "a \<le> 6" "0 \<le> b" "b \<le> 6" "0 \<le> c" "c \<le> 6"
    "0 \<le> d" "d \<le> 6" "0 \<le> e" "e \<le> 6" "0 \<le> f" "f \<le> 6"
    "get_us_holidays y = Some
      [(\<lparr>date_year = y, date_month = 1, date_day = 1\<rparr>, ''New Year's Day''),
       (\<lparr>date_year = y, date_month = 7, date_day = 4\<rparr>, ''Independence Day''),
       (\<lparr>date_year = y, date_month = 11, date_day = 11\<rparr>, ''Veterans Day''),
       (\<lparr>date_year = y, date_month = 12, date_day = 25\<rparr>, ''Christmas Day''),
       (\<lparr>date_year = y, date_month = 1, date_day = 1 + a + 14\<rparr>, ''Martin Luther King Jr. Day''),
       (\<lparr>date_year = y, date_month = 2, date_day = 1 + b + 14\<rparr>, ''Presidents Day''),
       (\<lparr>date_year = y, date_month = 5, date_day = 31 - c\<rparr>, ''Memorial Day''),
       (\<lparr>date_year = y, date_month = 9, date_day = 1 + d\<rparr>, ''Labor Day''),
       (\<lparr>date_year = y, date_month = 10, date_day = 1 + e + 7\<rparr>, ''Columbus Day''),
       (\<lparr>date_year = y, date_month = 11, date_day = 1 + f + 21\<rparr>, ''Thanksgiving Day'')]"
proof -
  define a where "a = (7 - weekday \<lparr>date_year = y, date_month = 1, date_day = 1\<rparr>) mod 7"
  define b where "b = (7 - weekday \<lparr>date_year = y, date_month = 2, date_day = 1\<rparr>) mod 7"
  define c where "c = (weekday \<lparr>date_year = y, date_month = 5, date_day = 31\<rparr> + 1) mod 7"
  define d where "d = (7 - weekday \<lparr>date_year = y, date_month = 9, date_day = 1\<rparr>) mod 7"
  define e where "e = (7 - weekday \<lparr>date_year = y, date_month = 10, date_day = 1\<rparr>) mod 7"
  define f where "f = (3 - weekday \<lparr>date_year = y, date_month = 11, date_day = 1\<rparr>) mod 7"
  note folds = a_def [symmetric] b_def [symmetric] c_def [symmetric] d_def [symmetric]
    e_def [symmetric] f_def [symmetric]
  have r: "0 \<le> a" "a \<le> 6" "0 \<le> b" "b \<le> 6" "0 \<le> c" "c \<le> 6"
    "0 \<le> d" "d \<le> 6" "0 \<le> e" "e \<le> 6" "0 \<le> f" "f \<le> 6"
    by (simp_all add: a_def b_def c_def d_def e_def f_def)
  have fixed:
    "mk_date y 1 1 = Some \<lparr>date_year = y, date_month = 1, date_day = 1\<rparr>"
    "mk_date y 7 4 = Some \<lparr>date_year = y, date_month = 7, date_day = 4\<rparr>"
    "mk_date y 11 11 = Some \<lparr>date_year = y, date_month = 11, date_day = 11\<rparr>"
    "mk_date y 12 25 = Some \<lparr>date_year = y, date_month = 12, date_day = 25\<rparr>"
    "mk_date y 2 1 = Some \<lparr>date_year = y, date_month = 2, date_day = 1\<rparr>"
    "mk_date y 5 31 = Some \<lparr>date_year = y, date_month = 5, date_day = 31\<rparr>"
    "mk_date y 9 1 = Some \<lparr>date_year = y, date_month = 9, date_day = 1\<rparr>"
    "mk_date y 10 1 = Some \<lparr>date_year = y, date_month = 10, date_day = 1\<rparr>"
    "mk_date y 11 1 = Some \<lparr>date_year = y, date_month = 11, date_day = 1\<rparr>"
    using y by (simp_all add: mk_date_ok mk_date_may)
  have floating:
    "mk_date y 1 (1 + a) = Some \<lparr>date_year = y, date_month = 1, date_day = 1 + a\<rparr>"
    "mk_date y 1 (1 + a + 14) = Some \<lparr>date_year = y, date_month = 1, date_day = 1 + a + 14\<rparr>"
    "mk_date y 2 (1 + b) = Some \<lparr>date_year = y, date_month = 2, date_day = 1 + b\<rparr>"
    "mk_date y 2 (1 + b + 14) = Some \<lparr>date_year = y, date_month = 2, date_day = 1 + b + 14\<rparr>"
    "mk_date y 5 (31 - c) = Some \<lparr>date_year = y, date_month = 5, date_day = 31 - c\<rparr>"
    "mk_date y 9 (1 + d) = Some \<lparr>date_year = y, date_month = 9, date_day = 1 + d\<rparr>"
    "mk_date y 10 (1 + e) = Some \<lparr>date_year = y, date_month = 10, date_day = 1 + e\<rparr>"
    "mk_date y 10 (1 + e + 7) = Some \<lparr>date_year = y, date_month = 10, date_day = 1 + e + 7\<rparr>"
    "mk_date y 11 (1 + f) = Some \<lparr>date_year = y, date_month = 11, date_day = 1 + f\<rparr>"
    "mk_date y 11 (1 + f + 21) = Some \<lparr>date_year = y, date_month = 11, date_day = 1 + f + 21\<rparr>"
    using y r by (simp_all add: mk_date_ok mk_date_may)
  have "get_us_holidays y =
      Some (dict_set \<lparr>date_year = y, date_month = 11, date_day = 1 + f + 21\<rparr> ''Thanksgiving Day''
        (dict_set \<lparr>date_year = y, date_month = 10, date_day = 1 + e + 7\<rparr> ''Columbus Day''
        (dict_set \<lparr>date_year = y, date_month = 9, date_day = 1 + d\<rparr> ''Labor Day''
        (dict_set \<lparr>date_year = y, date_month = 5, date_day = 31 - c\<rparr> ''Memorial Day''
        (dict_set \<lparr>date_year = y, date_month = 2, date_day = 1 + b + 14\<rparr> ''Presidents Day''
        (dict_set \<lparr>date_year = y, date_month = 1, date_day = 1 + a + 14\<rparr> ''Martin Luther King Jr. Day''
        (dict_set \<lparr>date_year = y, date_month = 12, date_day = 25\<rparr> ''Christmas Day''
        (dict_set \<lparr>date_year = y, date_month = 11, date_day = 11\<rparr> ''Veterans Day''
        (dict_set \<lparr>date_year = y, date_month = 7, date_day = 4\<rparr> ''Independence Day''
        (dict_set \<lparr>date_year = y, date_month = 1, date_day = 1\<rparr> ''New Year's Day'' []))))))))))"
    unfolding get_us_holidays_def replace_day_def Let_def
    by (simp only: fixed floating folds Option.bind.simps date.select_convs)
  also have "\<dots> = Some
      [(\<lparr>date_year = y, date_month = 1, date_day = 1\<rparr>, ''New Year's Day''),
       (\<lparr>date_year = y, date_month = 7, date_day = 4\<rparr>, ''Independence Day''),
       (\<lparr>date_year = y, date_month = 11, date_day = 11\<rparr>, ''Veterans Day''),
       (\<lparr>date_year = y, date_month = 12, date_day = 25\<rparr>, ''Christmas Day''),
       (\<lparr>date_year = y, date_month = 1, date_day = 1 + a + 14\<rparr>, ''Martin Luther King Jr. Day''),
       (\<lparr>date_year = y, date_month = 2, date_day = 1 + b + 14\<rparr>, ''Presidents Day''),
       (\<lparr>date_year = y, date_month = 5, date_day = 31 - c\<rparr>, ''Memorial Day''),
       (\<lparr>date_year = y, date_month = 9, date_day = 1 + d\<rparr>, ''Labor Day''),
       (\<lparr>date_year = y, date_month = 10, date_day = 1 + e + 7\<rparr>, ''Columbus Day''),
       (\<lparr>date_year = y, date_month = 11, date_day = 1 + f + 21\<rparr>, ''Thanksgiving Day'')]"
    using r by simp
  finally show ?thesis
    using that [OF a_def b_def c_def d_def e_def f_def r] by blast
qed

text \<open>
  C5. For every year from 1900 to 2100 \<^verbatim>\<open>get_us_holidays\<close> returns (no date it builds is
  refused), and the table has exactly ten entries, whose keys are pairwise distinct dates
  of that year.
\<close>

theorem get_us_holidays_ten_entries:
  assumes "1900 \<le> Y" "Y \<le> 2100"
  shows "\<exists>holidays. get_us_holidays Y = Some holidays
           \<and> length holidays = 10
           \<and> distinct (map fst holidays)
           \<and> list_all (\<lambda>dt. date_year dt = Y) (map fst holidays)"
proof -
  from assms have "1 \<le> Y" "Y \<le> 9999" by simp_all
  then obtain a b c d e f :: int where
    r: "0 \<le> a" "a \<le> 6" "0 \<le> b" "b \<le> 6" "0 \<le> c" "c \<le> 6"
       "0 \<le> d" "d \<le> 6" "0 \<le> e" "e \<le> 6" "0 \<le> f" "f \<le> 6"
    and t: "get_us_holidays Y = Some
      [(\<lparr>date_year = Y, date_month = 1, date_day = 1\<rparr>, ''New Year's Day''),
       (\<lparr>date_year = Y, date_month = 7, date_day = 4\<rparr>, ''Independence Day''),
       (\<lparr>date_year = Y, date_month = 11, date_day = 11\<rparr>, ''Veterans Day''),
       (\<lparr>date_year = Y, date_month = 12, date_day = 25\<rparr>, ''Christmas Day''),
       (\<lparr>date_year = Y, date_month = 1, date_day = 1 + a + 14\<rparr>, ''Martin Luther King Jr. Day''),
       (\<lparr>date_year = Y, date_month = 2, date_day = 1 + b + 14\<rparr>, ''Presidents Day''),
       (\<lparr>date_year = Y, date_month = 5, date_day = 31 - c\<rparr>, ''Memorial Day''),
       (\<lparr>date_year = Y, date_month = 9, date_day = 1 + d\<rparr>, ''Labor Day''),
       (\<lparr>date_year = Y, date_month = 10, date_day = 1 + e + 7\<rparr>, ''Columbus Day''),
       (\<lparr>date_year = Y, date_month = 11, date_day = 1 + f + 21\<rparr>, ''Thanksgiving Day'')]"
    by (rule get_us_holidays_table)
  show ?thesis
    unfolding t using r by simp
qed

theorem get_us_holidays_ten_entries_witness:
  "(1900::int) \<le> 2024 \<and> (2024::int) \<le> 2100
   \<and> (\<exists>holidays. get_us_holidays 2024 = Some holidays
         \<and> length holidays = 10
         \<and> distinct (map fst holidays)
         \<and> list_all (\<lambda>dt. date_year dt = 2024) (map fst holidays))"
  using get_us_holidays_ten_entries [of 2024] by simp

text \<open>
  C4. For every year from 1900 to 2100 the table holds each floating holiday under its name
  once (the list of the weekdays of the dates entered under the name has one element). Martin
  Luther King Jr. Day, Presidents Day, Columbus Day and Labor Day fall on a Monday
  (\<open>weekday = 0\<close>) and Thanksgiving on a Thursday (\<open>weekday = 3\<close>). Memorial Day, which the
  source announces as the last Monday in May, is computed as the last Sunday in May
  (\<open>weekday = 6\<close>): the offset \<^verbatim>\<open>(may_31.weekday() + 1) % 7\<close> counts the days back to a
  Sunday.
\<close>

theorem floating_holidays_weekdays:
  assumes "1900 \<le> Y" "Y \<le> 2100"
  shows "\<exists>holidays.
           get_us_holidays Y = Some holidays
         \<and> map weekday (dates_named ''Martin Luther King Jr. Day'' holidays) = [0]
         \<and> map weekday (dates_named ''Presidents Day'' holidays) = [0]
         \<and> map weekday (dates_named ''Columbus Day'' holidays) = [0]
         \<and> map weekday (dates_named ''Labor Day'' holidays) = [0]
         \<and> map weekday (dates_named ''Thanksgiving Day'' holidays) = [3]
         \<and> map date_month (dates_named ''Memorial Day'' holidays) = [5]
         \<and> map weekday (dates_named ''Memorial Day'' holidays) = [6]"
proof -
  from assms have "1 \<le> Y" "Y \<le> 9999" by simp_all
  then obtain a b c d e f :: int where
    o: "a = (7 - weekday \<lparr>date_year = Y, date_month = 1, date_day = 1\<rparr>) mod 7"
       "b = (7 - weekday \<lparr>date_year = Y, date_month = 2, date_day = 1\<rparr>) mod 7"
       "c = (weekday \<lparr>date_year = Y, date_month = 5, date_day = 31\<rparr> + 1) mod 7"
       "d = (7 - weekday \<lparr>date_year = Y, date_month = 9, date_day = 1\<rparr>) mod 7"
       "e = (7 - weekday \<lparr>date_year = Y, date_month = 10, date_day = 1\<rparr>) mod 7"
       "f = (3 - weekday \<lparr>date_year = Y, date_month = 11, date_day = 1\<rparr>) mod 7"
    and t: "get_us_holidays Y = Some
      [(\<lparr>date_year = Y, date_month = 1, date_day = 1\<rparr>, ''New Year's Day''),
       (\<lparr>date_year = Y, date_month = 7, date_day = 4\<rparr>, ''Independence Day''),
       (\<lparr>date_year = Y, date_month = 11, date_day = 11\<rparr>, ''Veterans Day''),
       (\<lparr>date_year = Y, date_month = 12, date_day = 25\<rparr>, ''Christmas Day''),
       (\<lparr>date_year = Y, date_month = 1, date_day = 1 + a + 14\<rparr>, ''Martin Luther King Jr. Day''),
       (\<lparr>date_year = Y, date_month = 2, date_day = 1 + b + 14\<rparr>, ''Presidents Day''),
       (\<lparr>date_year = Y, date_month = 5, date_day = 31 - c\<rparr>, ''Memorial Day''),
       (\<lparr>date_year = Y, date_month = 9, date_day = 1 + d\<rparr>, ''Labor Day''),
       (\<lparr>date_year = Y, date_month = 10, date_day = 1 + e + 7\<rparr>, ''Columbus Day''),
       (\<lparr>date_year = Y, date_month = 11, date_day = 1 + f + 21\<rparr>, ''Thanksgiving Day'')]"
    by (rule get_us_holidays_table)
  have w: "weekday \<lparr>date_year = Y, date_month = 1, date_day = 1 + a + 14\<rparr> = 0"
    "weekday \<lparr>date_year = Y, date_month = 2, date_day = 1 + b + 14\<rparr> = 0"
    "weekday \<lparr>date_year = Y, date_month = 10, date_day = 1 + e + 7\<rparr> = 0"
    "weekday \<lparr>date_year = Y, date_month = 11, date_day = 1 + f + 21\<rparr> = 3"
    "weekday \<lparr>date_year = Y, date_month = 5, date_day = 31 - c\<rparr> = 6"
    unfolding o by (simp_all only: weekday_first_plus weekday_last_minus) simp_all
  have "weekday \<lparr>date_year = Y, date_month = 9, date_day = 1 + d + 0\<rparr> = 0"
    unfolding o by (simp only: weekday_first_plus) simp
  then have w': "weekday \<lparr>date_year = Y, date_month = 9, date_day = 1 + d\<rparr> = 0" by simp
  show ?thesis
    unfolding t using w w' by (simp add: dates_named_def)
qed

text \<open>
  The year 2025: the table's Memorial Day is 25 May 2025, a Sunday (31 May 2025 is a
  Saturday, \<open>weekday = 5\<close>, and the source goes back \<open>(5 + 1) mod 7 = 6\<close> days). The last
  Monday of May 2025 is 26 May.
\<close>

theorem floating_holidays_weekdays_2025:
  "(1900::int) \<le> 2025 \<and> (2025::int) \<le> 2100
   \<and> map_option (dates_named ''Memorial Day'') (get_us_holidays 2025)
       = Some [\<lparr>date_year = 2025, date_month = 5, date_day = 25\<rparr>]
   \<and> weekday \<lparr>date_year = 2025, date_month = 5, date_day = 25\<rparr> = 6
   \<and> weekday \<lparr>date_year = 2025, date_month = 5, date_day = 26\<rparr> = 0"
proof -
  have e: "map_option (dates_named ''Memorial Day'') (get_us_holidays 2025)
       = Some [\<lparr>date_year = 2025, date_month = 5, date_day = 25\<rparr>]"
    by code_simp
  from floating_holidays_weekdays [of 2025] obtain holidays where
    "get_us_holidays 2025 = Some holidays"
    "map weekday (dates_named ''Memorial Day'' holidays) = [6]"
    by auto
  with e have "weekday \<lparr>date_year = 2025, date_month = 5, date_day = 25\<rparr> = 6"
    by simp
  moreover have "weekday \<lparr>date_year = 2025, date_month = 5, date_day = 26\<rparr> = 0"
    by code_simp
  ultimately show ?thesis using e by simp
qed

section \<open>Properties of the text layout\<close>

lemma isspace_space [simp]: "isspace CHR '' ''"
  by (simp add: isspace_def)

lemma split_from_nonspace:
  "\<forall>c\<in>set u. \<not> isspace c \<Longrightarrow> split_from (u @ rest) w = split_from rest (w @ u)"
  by (induction u arbitrary: w) simp_all

lemma split_from_words:
  "w' \<in> set (split_from s w) \<Longrightarrow> \<forall>c\<in>set w. \<not> isspace c \<Longrightarrow>
   w' \<noteq> [] \<and> (\<forall>c\<in>set w'. \<not> isspace c)"
proof (induction s arbitrary: w)
  case Nil
  then show ?case by (simp split: if_splits)
next
  case (Cons c cs)
  show ?case
  proof (cases "isspace c")
    case True
    with Cons.prems Cons.IH [of "[]"] show ?thesis
      by (cases "w = []") auto
  next
    case False
    with Cons.prems Cons.IH [of "w @ [c]"] show ?thesis by simp
  qed
qed

lemma join_nonempty: "ws \<noteq> [] \<Longrightarrow> \<forall>w\<in>set ws. w \<noteq> [] \<Longrightarrow> join sep ws \<noteq> []"
  by (induction sep ws rule: join.induct) simp_all

lemma split_from_join:
  "\<forall>w\<in>set ws. w \<noteq> [] \<and> (\<forall>c\<in>set w. \<not> isspace c) \<Longrightarrow> split_from (join '' '' ws) [] = ws"
proof (induction ws)
  case Nil
  show ?case by simp
next
  case (Cons w ws)
  from Cons.prems have w: "w \<noteq> []" "\<forall>c\<in>set w. \<not> isspace c" by simp_all
  show ?case
  proof (cases ws)
    case Nil
    have "split_from (w @ []) [] = split_from [] ([] @ w)"
      using w(2) by (rule split_from_nonspace)
    with w(1) Nil show ?thesis by simp
  next
    case (Cons v vs)
    have "split_from (w @ (CHR '' '' # join '' '' ws)) [] = split_from (CHR '' '' # join '' '' ws) ([] @ w)"
      using w(2) by (rule split_from_nonspace)
    also have "\<dots> = w # split_from (join '' '' ws) []"
      using w(1) by simp
    also have "split_from (join '' '' ws) [] = ws"
      using Cons.IH Cons.prems by simp
    finally show ?thesis using Cons by simp
  qed
qed

lemma split_join:
  "\<forall>w\<in>set ws. w \<noteq> [] \<and> (\<forall>c\<in>set w. \<not> isspace c) \<Longrightarrow> split (join '' '' ws) = ws"
  unfolding split_def by (rule split_from_join)

lemma split_words:
  "w \<in> set (split s) \<Longrightarrow> w \<noteq> [] \<and> (\<forall>c\<in>set w. \<not> isspace c)"
  unfolding split_def using split_from_words [of w s "[]"] by simp

lemma is_word_split_join: "list_all is_word ws \<Longrightarrow> split (join '' '' ws) = ws"
  by (rule split_join) (auto simp: is_word_def list_all_iff list_ex_iff)

lemma is_word_split: "list_all is_word (split s)"
  using split_words [of _ s] by (auto simp: is_word_def list_all_iff list_ex_iff)

lemma is_word_join_nonempty: "ws \<noteq> [] \<Longrightarrow> list_all is_word ws \<Longrightarrow> join sep ws \<noteq> []"
  by (rule join_nonempty) (auto simp: is_word_def list_all_iff)

lemma wrap_loop_order:
  "list_all is_word (current_line @ ws) \<Longrightarrow>
   wrap_loop fits ws lines current_line = (lines', current_line') \<Longrightarrow>
   concat (map split (if current_line' \<noteq> [] then lines' @ [join '' '' current_line'] else lines'))
     = concat (map split lines) @ current_line @ ws"
proof (induction ws arbitrary: lines current_line)
  case Nil
  then show ?case by (auto simp: is_word_split_join)
next
  case (Cons w ws)
  show ?case
  proof (cases "fits (length (join '' '' (current_line @ [w])))")
    case True
    with Cons.prems have "wrap_loop fits ws lines (current_line @ [w]) = (lines', current_line')"
      by simp
    with Cons.IH [of "current_line @ [w]" lines] Cons.prems(1) show ?thesis by simp
  next
    case False
    define lines2 where
      "lines2 = (if current_line \<noteq> [] then lines @ [join '' '' current_line] else lines)"
    from False Cons.prems have "wrap_loop fits ws lines2 [w] = (lines', current_line')"
      by (simp add: lines2_def)
    with Cons.IH [of "[w]" lines2] Cons.prems(1)
    have "concat (map split (if current_line' \<noteq> [] then lines' @ [join '' '' current_line'] else lines'))
        = concat (map split lines2) @ [w] @ ws"
      by simp
    moreover have "concat (map split lines2) = concat (map split lines) @ current_line"
      using Cons.prems(1) by (simp add: lines2_def is_word_split_join)
    ultimately show ?thesis by simp
  qed
qed

lemma wrap_loop_lines:
  "list_all is_word (current_line @ ws) \<Longrightarrow>
   2 \<le> length current_line \<longrightarrow> fits (length (join '' '' current_line)) \<Longrightarrow>
   wrap_loop fits ws lines current_line = (lines', current_line') \<Longrightarrow>
   l \<in> set (if current_line' \<noteq> [] then lines' @ [join '' '' current_line'] else lines') \<Longrightarrow>
   l \<in> set lines \<or>
   (\<exists>g. g \<noteq> [] \<and> list_all is_word g \<and> l = join '' '' g \<and> (2 \<le> length g \<longrightarrow> fits (length l)))"
proof (induction ws arbitrary: lines current_line)
  case Nil
  then show ?case by (auto split: if_splits)
next
  case (Cons w ws)
  show ?case
  proof (cases "fits (length (join '' '' (current_line @ [w])))")
    case True
    with Cons.prems have "wrap_loop fits ws lines (current_line @ [w]) = (lines', current_line')"
      by simp
    with Cons.IH [of "current_line @ [w]" lines] Cons.prems(1,4) True show ?thesis by simp
  next
    case False
    define lines2 where
      "lines2 = (if current_line \<noteq> [] then lines @ [join '' '' current_line] else lines)"
    from False Cons.prems have "wrap_loop fits ws lines2 [w] = (lines', current_line')"
      by (simp add: lines2_def)
    with Cons.IH [of "[w]" lines2] Cons.prems(1,4)
    have "l \<in> set lines2 \<or>
      (\<exists>g. g \<noteq> [] \<and> list_all is_word g \<and> l = join '' '' g \<and> (2 \<le> length g \<longrightarrow> fits (length l)))"
      by simp
    moreover have "l \<in> set lines2 \<Longrightarrow> l \<in> set lines \<or>
      (\<exists>g. g \<noteq> [] \<and> list_all is_word g \<and> l = join '' '' g \<and> (2 \<le> length g \<longrightarrow> fits (length l)))"
    proof -
      assume "l \<in> set lines2"
      then consider "l \<in> set lines" | "current_line \<noteq> []" "l = join '' '' current_line"
        by (auto simp: lines2_def split: if_splits)
      then show ?thesis
      proof cases
        case 1
        then show ?thesis by simp
      next
        case 2
        with Cons.prems(1,2) show ?thesis
          by (intro disjI2 exI [of _ current_line]) simp
      qed
    qed
    ultimately show ?thesis by blast
  qed
qed

lemma wrap_text_line:
  assumes "l \<in> set (wrap_text fits text)"
  shows "\<exists>g. g \<noteq> [] \<and> list_all is_word g \<and> l = join '' '' g \<and> (2 \<le> length g \<longrightarrow> fits (length l))"
proof -
  obtain lines' current_line' where w: "wrap_loop fits (split text) [] [] = (lines', current_line')"
    by (cases "wrap_loop fits (split text) [] []")
  with assms have "l \<in> set (if current_line' \<noteq> [] then lines' @ [join '' '' current_line'] else lines')"
    by (simp add: wrap_text_def)
  with wrap_loop_lines [OF _ _ w, of l] is_word_split [of "text"]
  show ?thesis by simp
qed


text \<open>
  C7. For every text and every width test, the lines returned by \<^verbatim>\<open>wrap_text\<close> are non-empty,
  and the words of the lines, line after line, are the words of \<^verbatim>\<open>text.split()\<close>: the same
  words in the same order, none split, dropped or repeated.
\<close>

theorem wrap_text_roundtrip:
  "[] \<notin> set (wrap_text fits text) \<and> concat (map split (wrap_text fits text)) = split text"
proof
  show "[] \<notin> set (wrap_text fits text)"
  proof
    assume "[] \<in> set (wrap_text fits text)"
    from wrap_text_line [OF this] obtain g where "g \<noteq> []" "list_all is_word g" "[] = join '' '' g"
      by blast
    with is_word_join_nonempty [of g "'' ''"] show False by simp
  qed
next
  obtain lines' current_line' where w: "wrap_loop fits (split text) [] [] = (lines', current_line')"
    by (cases "wrap_loop fits (split text) [] []")
  from wrap_loop_order [OF _ w] is_word_split [of "text"]
  show "concat (map split (wrap_text fits text)) = split text"
    by (simp add: wrap_text_def w)
qed

theorem wrap_text_roundtrip_witness:
  "wrap_text (width_test 400 12) ''The journey of a thousand miles begins with one step.''
     = [''The journey of a thousand miles begins with one step.'']
   \<and> wrap_text (\<lambda>n. n \<le> 5) ''abcdefgh xy  z'' = [''abcdefgh'', ''xy z'']
   \<and> [] \<notin> set (wrap_text (\<lambda>n. n \<le> 5) ''abcdefgh xy  z'')
   \<and> concat (map split (wrap_text (\<lambda>n. n \<le> 5) ''abcdefgh xy  z''))
       = split ''abcdefgh xy  z''"
proof -
  have a: "wrap_text (width_test 400 12) ''The journey of a thousand miles begins with one step.''
     = [''The journey of a thousand miles begins with one step.'']"
    by code_simp
  have b: "wrap_text (\<lambda>n. n \<le> 5) ''abcdefgh xy  z'' = [''abcdefgh'', ''xy z'']"
    by code_simp
  note c = wrap_text_roundtrip [of "\<lambda>n. n \<le> 5" "''abcdefgh xy  z''"]
  show ?thesis
    by (intro conjI) (rule a b c [THEN conjunct1] c [THEN conjunct2])+
qed

text \<open>
  C10. Every line returned by \<^verbatim>\<open>wrap_text\<close> that holds two or more words passes the width
  test of the source on its own length; a line that does not pass is a single word (alone
  on its line, whatever its length).
\<close>

theorem wrap_text_width_budget:
  assumes "l \<in> set (wrap_text fits text)"
  shows "(2 \<le> length (split l) \<longrightarrow> fits (length l)) \<and> (\<not> fits (length l) \<longrightarrow> split l = [l])"
proof -
  from wrap_text_line [OF assms] obtain g where
    g: "g \<noteq> []" "list_all is_word g" "l = join '' '' g" "2 \<le> length g \<longrightarrow> fits (length l)"
    by blast
  have s: "split l = g" using g(2,3) by (simp add: is_word_split_join)
  have "split l = [l]" if "\<not> fits (length l)"
  proof -
    from that g(4) have "length g < 2" by auto
    with g(1) obtain w where "g = [w]" by (cases g) auto
    with g(3) s show ?thesis by simp
  qed
  with s g(4) show ?thesis by blast
qed

theorem wrap_text_width_budget_witness:
  "''xy z'' \<in> set (wrap_text (\<lambda>n. n \<le> 5) ''abcdefgh xy  z'')
   \<and> 2 \<le> length (split ''xy z'')
   \<and> length ''xy z'' \<le> (5::nat)
   \<and> ''abcdefgh'' \<in> set (wrap_text (\<lambda>n. n \<le> 5) ''abcdefgh xy  z'')
   \<and> \<not> length ''abcdefgh'' \<le> (5::nat)
   \<and> split ''abcdefgh'' = [''abcdefgh'']"
proof -
  have m1: "''xy z'' \<in> set (wrap_text (\<lambda>n. n \<le> 5) ''abcdefgh xy  z'')"
    by code_simp
  have w1: "2 \<le> length (split ''xy z'')"
    by code_simp
  have m2: "''abcdefgh'' \<in> set (wrap_text (\<lambda>n. n \<le> 5) ''abcdefgh xy  z'')"
    by code_simp
  have n2: "\<not> length ''abcdefgh'' \<le> (5::nat)"
    by simp
  from wrap_text_width_budget [OF m1] w1 have f1: "length ''xy z'' \<le> (5::nat)"
    by blast
  from wrap_text_width_budget [OF m2] n2 have s2: "split ''abcdefgh'' = [''abcdefgh'']"
    by blast
  show ?thesis
    by (intro conjI) (rule m1 w1 f1 m2 n2 s2)+
qed

section \<open>Properties of the quote rotation\<close>

lemma distinct_WISDOM_QUOTES: "distinct WISDOM_QUOTES"
  unfolding WISDOM_QUOTES_def by simp

lemma length_WISDOM_QUOTES: "length WISDOM_QUOTES = 40"
  unfolding WISDOM_QUOTES_def by simp

lemma random_choice_in: "seq \<noteq> [] \<Longrightarrow> random_choice r seq \<in> set seq"
  by (simp add: random_choice_def)

lemma get_unique_quote_fresh:
  assumes "\<not> set WISDOM_QUOTES \<subseteq> quotes_used"
  shows "\<exists>q. get_unique_quote r quotes_used = (q, insert q quotes_used)
           \<and> q \<in> set WISDOM_QUOTES \<and> q \<notin> quotes_used"
proof -
  define available where "available = filter (\<lambda>q. q \<notin> quotes_used) WISDOM_QUOTES"
  from assms have ne: "available \<noteq> []"
    by (auto simp: available_def filter_empty_conv)
  have "random_choice r available \<in> set available"
    using ne by (rule random_choice_in)
  then have "random_choice r available \<in> set WISDOM_QUOTES" "random_choice r available \<notin> quotes_used"
    by (simp_all add: available_def)
  moreover have "get_unique_quote r quotes_used
      = (random_choice r available, insert (random_choice r available) quotes_used)"
    using ne by (simp add: get_unique_quote_def available_def [symmetric] Let_def)
  ultimately show ?thesis by blast
qed

lemma get_unique_quote_reset:
  assumes "set WISDOM_QUOTES \<subseteq> quotes_used"
  shows "get_unique_quote r quotes_used
           = (random_choice r WISDOM_QUOTES, {random_choice r WISDOM_QUOTES})"
proof -
  from assms have "filter (\<lambda>q. q \<notin> quotes_used) WISDOM_QUOTES = []"
    by (auto simp: filter_empty_conv)
  then show ?thesis
    by (simp add: get_unique_quote_def Let_def)
qed

lemma quote_calls_fresh:
  "finite quotes_used \<Longrightarrow> quotes_used \<subseteq> set WISDOM_QUOTES \<Longrightarrow>
   card quotes_used + length rs \<le> length WISDOM_QUOTES \<Longrightarrow>
   distinct (fst (quote_calls rs quotes_used))
   \<and> length (fst (quote_calls rs quotes_used)) = length rs
   \<and> set (fst (quote_calls rs quotes_used)) \<subseteq> set WISDOM_QUOTES
   \<and> set (fst (quote_calls rs quotes_used)) \<inter> quotes_used = {}
   \<and> snd (quote_calls rs quotes_used) = quotes_used \<union> set (fst (quote_calls rs quotes_used))"
proof (induction rs arbitrary: quotes_used)
  case Nil
  show ?case by simp
next
  case (Cons r rs)
  have c: "card (set WISDOM_QUOTES) = length WISDOM_QUOTES"
    using distinct_WISDOM_QUOTES by (rule distinct_card)
  have "\<not> set WISDOM_QUOTES \<subseteq> quotes_used"
  proof
    assume "set WISDOM_QUOTES \<subseteq> quotes_used"
    with Cons.prems(1) have "card (set WISDOM_QUOTES) \<le> card quotes_used"
      by (simp add: card_mono)
    with c Cons.prems(3) show False by simp
  qed
  from get_unique_quote_fresh [OF this, of r] obtain q where
    q: "get_unique_quote r quotes_used = (q, insert q quotes_used)"
       "q \<in> set WISDOM_QUOTES" "q \<notin> quotes_used"
    by blast
  have "card (insert q quotes_used) + length rs \<le> length WISDOM_QUOTES"
    using Cons.prems(1,3) q(3) by simp
  with Cons.IH [of "insert q quotes_used"] Cons.prems(1,2) q(2)
  have ih: "distinct (fst (quote_calls rs (insert q quotes_used)))"
    "length (fst (quote_calls rs (insert q quotes_used))) = length rs"
    "set (fst (quote_calls rs (insert q quotes_used))) \<subseteq> set WISDOM_QUOTES"
    "set (fst (quote_calls rs (insert q quotes_used))) \<inter> insert q quotes_used = {}"
    "snd (quote_calls rs (insert q quotes_used))
       = insert q quotes_used \<union> set (fst (quote_calls rs (insert q quotes_used)))"
    by simp_all
  obtain qs u where e: "quote_calls rs (insert q quotes_used) = (qs, u)"
    by (cases "quote_calls rs (insert q quotes_used)")
  have "quote_calls (r # rs) quotes_used = (q # qs, u)"
    by (simp add: q(1) e)
  with ih q(2,3) e show ?case by auto
qed

lemma quote_calls_append:
  "quote_calls (rs @ rs') quotes_used =
     (fst (quote_calls rs quotes_used) @ fst (quote_calls rs' (snd (quote_calls rs quotes_used))),
      snd (quote_calls rs' (snd (quote_calls rs quotes_used))))"
  by (induction rs arbitrary: quotes_used) (simp_all add: split_beta Let_def)

text \<open>
  C8. Starting from the empty set \<^verbatim>\<open>quotes_used\<close>, whatever numbers the random source draws:
  the quotes returned by the first N calls (N the length of \<^verbatim>\<open>WISDOM_QUOTES\<close>) are pairwise
  distinct, after them \<^verbatim>\<open>quotes_used\<close> is the whole list, and the next call starts over:
  it picks from the whole list, so its quote is one of the N returned before, and leaves
  \<^verbatim>\<open>quotes_used\<close> holding that quote alone.
\<close>

theorem quote_rotation:
  assumes "length rs = length WISDOM_QUOTES"
  shows "distinct (fst (quote_calls rs {}))
       \<and> length (fst (quote_calls rs {})) = length WISDOM_QUOTES
       \<and> snd (quote_calls rs {}) = set WISDOM_QUOTES
       \<and> get_unique_quote r (snd (quote_calls rs {}))
           = (random_choice r WISDOM_QUOTES, {random_choice r WISDOM_QUOTES})
       \<and> random_choice r WISDOM_QUOTES \<in> set (fst (quote_calls rs {}))
       \<and> quote_calls (rs @ [r]) {}
           = (fst (quote_calls rs {}) @ [random_choice r WISDOM_QUOTES],
              {random_choice r WISDOM_QUOTES})"
proof -
  from quote_calls_fresh [of "{}" rs] assms
  have f: "distinct (fst (quote_calls rs {}))"
    "length (fst (quote_calls rs {})) = length rs"
    "set (fst (quote_calls rs {})) \<subseteq> set WISDOM_QUOTES"
    "snd (quote_calls rs {}) = set (fst (quote_calls rs {}))"
    by simp_all
  have "card (set (fst (quote_calls rs {}))) = card (set WISDOM_QUOTES)"
    using f(1,2) assms distinct_WISDOM_QUOTES by (simp add: distinct_card)
  with f(3) have s: "set (fst (quote_calls rs {})) = set WISDOM_QUOTES"
    by (simp add: card_subset_eq)
  have ne: "WISDOM_QUOTES \<noteq> []"
    using length_WISDOM_QUOTES by auto
  have g: "get_unique_quote r (snd (quote_calls rs {}))
           = (random_choice r WISDOM_QUOTES, {random_choice r WISDOM_QUOTES})"
    by (rule get_unique_quote_reset) (simp add: f(4) s)
  have m: "random_choice r WISDOM_QUOTES \<in> set (fst (quote_calls rs {}))"
    unfolding s using ne by (rule random_choice_in)
  have a: "quote_calls (rs @ [r]) {}
           = (fst (quote_calls rs {}) @ [random_choice r WISDOM_QUOTES],
              {random_choice r WISDOM_QUOTES})"
    by (simp add: quote_calls_append g)
  from f(1,2) assms s f(4) g m a show ?thesis by simp
qed

theorem quote_rotation_witness:
  "length (replicate 40 (0::nat)) = length WISDOM_QUOTES
   \<and> fst (quote_calls [0, 5, 0] {}) = [WISDOM_QUOTES ! 0, WISDOM_QUOTES ! 6, WISDOM_QUOTES ! 1]
   \<and> distinct (fst (quote_calls (replicate 40 0) {}))
   \<and> snd (quote_calls (replicate 40 0) {}) = set WISDOM_QUOTES
   \<and> random_choice 7 WISDOM_QUOTES \<in> set (fst (quote_calls (replicate 40 0) {}))
   \<and> snd (quote_calls (replicate 40 0 @ [7]) {}) = {random_choice 7 WISDOM_QUOTES}"
proof -
  have l: "length (replicate 40 (0::nat)) = length WISDOM_QUOTES"
    by (simp add: length_WISDOM_QUOTES)
  have e: "fst (quote_calls [0, 5, 0] {})
      = [WISDOM_QUOTES ! 0, WISDOM_QUOTES ! 6, WISDOM_QUOTES ! 1]"
    by code_simp
  note t = quote_rotation [OF l, of 7]
  from t have d: "distinct (fst (quote_calls (replicate 40 0) {}))"
    by (rule conjunct1)
  from t have u: "snd (quote_calls (replicate 40 0) {}) = set WISDOM_QUOTES"
    by blast
  from t have m: "random_choice 7 WISDOM_QUOTES \<in> set (fst (quote_calls (replicate 40 0) {}))"
    by blast
  from t have "quote_calls (replicate 40 0 @ [7]) {}
      = (fst (quote_calls (replicate 40 0) {}) @ [random_choice 7 WISDOM_QUOTES],
         {random_choice 7 WISDOM_QUOTES})"
    by blast
  then have a: "snd (quote_calls (replicate 40 0 @ [7]) {}) = {random_choice 7 WISDOM_QUOTES}"
    by (simp only: snd_conv)
  show ?thesis
    by (intro conjI) (rule l e d u m a)+
qed

section \<open>Properties of the anchors\<close>

declare str_nat.simps [simp del]

lemma of_char_digit_char: "d < 10 \<Longrightarrow> (of_char (digit_char d) :: nat) = 48 + d"
  by (simp add: digit_char_def)

lemma str_nat_nonempty: "str_nat n \<noteq> []"
  by (subst str_nat.simps) simp

lemma str_nat_digits:
  "c \<in> set (str_nat n) \<Longrightarrow> 48 \<le> (of_char c :: nat) \<and> (of_char c :: nat) \<le> 57"
proof (induction n rule: str_nat.induct)
  case (1 n)
  show ?case
  proof (cases "n < 10")
    case True
    with "1.prems" have "c = digit_char n"
      by (subst (asm) str_nat.simps) simp
    with True show ?thesis by (simp add: of_char_digit_char)
  next
    case False
    with "1.prems" have "c \<in> set (str_nat (n div 10)) \<or> c = digit_char (n mod 10)"
      by (subst (asm) str_nat.simps) auto
    then show ?thesis
    proof
      assume "c \<in> set (str_nat (n div 10))"
      with "1.IH" False show ?thesis by simp
    next
      assume "c = digit_char (n mod 10)"
      then show ?thesis by (simp add: of_char_digit_char)
    qed
  qed
qed

lemma digit_char_inj: "a < 10 \<Longrightarrow> b < 10 \<Longrightarrow> digit_char a = digit_char b \<Longrightarrow> a = b"
proof -
  assume "a < 10" "b < 10" "digit_char a = digit_char b"
  then have "(of_char (digit_char a) :: nat) = of_char (digit_char b)" by simp
  with \<open>a < 10\<close> \<open>b < 10\<close> show "a = b" by (simp add: of_char_digit_char)
qed

lemma str_nat_inj: "str_nat a = str_nat b \<Longrightarrow> a = b"
proof (induction a arbitrary: b rule: str_nat.induct)
  case (1 a)
  show ?case
  proof (cases "a < 10")
    case a: True
    show ?thesis
    proof (cases "b < 10")
      case True
      with a "1.prems" have "digit_char a = digit_char b"
        by (simp add: str_nat.simps [of a] str_nat.simps [of b])
      with a True show ?thesis by (rule digit_char_inj)
    next
      case False
      with a "1.prems" have "[digit_char a] = str_nat (b div 10) @ [digit_char (b mod 10)]"
        by (simp add: str_nat.simps [of a] str_nat.simps [of b])
      then have "str_nat (b div 10) = []" by simp
      with str_nat_nonempty show ?thesis by blast
    qed
  next
    case a: False
    show ?thesis
    proof (cases "b < 10")
      case True
      with a "1.prems" have "str_nat (a div 10) @ [digit_char (a mod 10)] = [digit_char b]"
        by (simp add: str_nat.simps [of a] str_nat.simps [of b])
      then have "str_nat (a div 10) = []" by simp
      with str_nat_nonempty show ?thesis by blast
    next
      case False
      with a "1.prems" have
        "str_nat (a div 10) @ [digit_char (a mod 10)] = str_nat (b div 10) @ [digit_char (b mod 10)]"
        by (simp add: str_nat.simps [of a] str_nat.simps [of b])
      then have e: "str_nat (a div 10) = str_nat (b div 10)" "digit_char (a mod 10) = digit_char (b mod 10)"
        by simp_all
      from "1.IH" [OF a e(1)] have "a div 10 = b div 10" .
      moreover from e(2) have "a mod 10 = b mod 10"
        by (rule digit_char_inj [rotated 2]) simp_all
      ultimately show ?thesis
        by (metis div_mult_mod_eq)
    qed
  qed
qed



lemma str_int_inj: "str_int i = str_int j \<Longrightarrow> i = j"
proof -
  assume e: "str_int i = str_int j"
  have neg: "CHR ''-'' # str_nat a \<noteq> str_nat b" for a b
  proof
    assume "CHR ''-'' # str_nat a = str_nat b"
    then have "CHR ''-'' \<in> set (str_nat b)" by (metis list.set_intros(1))
    from str_nat_digits [OF this] show False by simp
  qed
  show "i = j"
  proof (cases "i < 0")
    case i: True
    show ?thesis
    proof (cases "j < 0")
      case True
      with i e have "str_nat (nat (- i)) = str_nat (nat (- j))" by (simp add: str_int_def)
      then have "nat (- i) = nat (- j)" by (rule str_nat_inj)
      with i True show ?thesis by simp
    next
      case False
      with i e neg [of "nat (- i)" "nat j"] show ?thesis by (simp add: str_int_def)
    qed
  next
    case i: False
    show ?thesis
    proof (cases "j < 0")
      case True
      with i e neg [of "nat (- j)" "nat i"] show ?thesis by (simp add: str_int_def)
    next
      case False
      with i e have "str_nat (nat i) = str_nat (nat j)" by (simp add: str_int_def)
      then have "nat i = nat j" by (rule str_nat_inj)
      with i False show ?thesis by simp
    qed
  qed
qed

lemma month_anchor_inj: "month_anchor m = month_anchor m' \<Longrightarrow> m = m'"
  by (simp add: month_anchor_def str_int_inj)


lemma month_anchor_not_day_anchor: "month_anchor m \<noteq> day_anchor m' d"
  by (simp add: month_anchor_def day_anchor_def)

lemma month_anchor_not_cover: "month_anchor m \<noteq> ''cover''"
  by (simp add: month_anchor_def)

section \<open>Properties of the page functions\<close>

declare chunks.simps [simp del]

lemma fold_links:
  "fold (\<lambda>i c. if P i then linkRect (f i) c else c) xs
     \<lparr>current = \<lparr>bookmarks = b, links = l\<rparr>, pages = ps\<rparr>
   = \<lparr>current = \<lparr>bookmarks = b, links = l @ map f (filter P xs)\<rparr>, pages = ps\<rparr>"
  by (induction xs arbitrary: l) (simp_all add: linkRect_def)

lemma months_shift: "[1..12] = map (\<lambda>i. i + 1) [0..11]"
  by code_simp

lemma draw_month_tabs_eq:
  "draw_month_tabs current_month \<lparr>current = \<lparr>bookmarks = b, links = l\<rparr>, pages = ps\<rparr>
   = \<lparr>current = \<lparr>bookmarks = b,
        links = l @ map month_anchor (filter (\<lambda>m. current_month \<noteq> Some m) [1..12])\<rparr>,
      pages = ps\<rparr>"
  unfolding draw_month_tabs_def fold_links months_shift
  by (simp only: filter_map map_map o_def)

lemma filter_not_current: "filter (\<lambda>i. Some m \<noteq> Some i) xs = filter (\<lambda>i. i \<noteq> m) xs"
  by (rule filter_cong) auto

lemma filter_none_current: "filter (\<lambda>i. None \<noteq> Some i) xs = xs"
  by simp

lemma filter_other: "filter ((\<noteq>) m) xs = filter (\<lambda>i. i \<noteq> m) xs"
  by (rule filter_cong) auto

lemma draw_seasonal_background_eq:
  "draw_seasonal_background env m (u, c)
   = (if get_season_from_month m = Winter \<and> \<not> (u \<and> background_loads env m)
      then Inl (AttributeError, False, c)
      else Inr (u \<and> background_loads env m, c))"
  by (cases "get_season_from_month m")
     (auto simp: draw_seasonal_background_def draw_background_image_def background_loads_def
        draw_winter_background_def draw_spring_background_def draw_summer_background_def
        draw_autumn_background_def Let_def)

lemma create_cover_page_eq:
  "create_cover_page env (u, \<lparr>current = empty_page, pages = ps\<rparr>)
   = on_canvas (draw_page env (6, cover_page) (u, ps))"
  unfolding create_cover_page_def draw_seasonal_background_eq empty_page_def
  by (simp add: draw_page_def on_canvas_def draw_month_tabs_eq filter_none_current
        showPage_def cover_page_def empty_page_def)

lemma create_day_page_eq:
  "mk_date yr m d = Some dt \<Longrightarrow>
   create_day_page env yr m d (u, \<lparr>current = empty_page, pages = ps\<rparr>)
   = on_canvas (draw_page env (m, day_page m d) (u, ps))"
  unfolding create_day_page_def draw_seasonal_background_eq empty_page_def
  by (simp add: draw_page_def on_canvas_def Let_def draw_month_tabs_eq filter_not_current
        filter_other showPage_def bookmarkPage_def day_page_def empty_page_def)

lemma for_each_append:
  "for_each body (xs @ ys) s
   = (case for_each body xs s of Inl es \<Rightarrow> Inl es | Inr s' \<Rightarrow> for_each body ys s')"
  by (induction xs arbitrary: s) (simp_all split: sum.splits)

lemma for_each_concat:
  "for_each (\<lambda>xs s. for_each body xs s) xss s = for_each body (concat xss) s"
  by (induction xss arbitrary: s) (simp_all add: for_each_append split: sum.splits)

lemma concat_chunks: "0 < n \<Longrightarrow> concat (chunks n xs) = xs"
proof (induction n xs rule: chunks.induct)
  case (1 n xs)
  show ?case
  proof (cases "xs = []")
    case True
    then show ?thesis by (subst chunks.simps) simp
  next
    case False
    with "1.prems" "1.IH" have "concat (chunks n (drop n xs)) = drop n xs" by simp
    with False "1.prems" show ?thesis by (subst chunks.simps) simp
  qed
qed

lemma month_cells:
  "list_all (\<lambda>d. d = 0 \<or> mk_date yr m d \<noteq> None) ds \<Longrightarrow>
   for_each (month_cell yr m) ds \<lparr>current = \<lparr>bookmarks = b, links = l\<rparr>, pages = ps\<rparr>
   = Inr \<lparr>current = \<lparr>bookmarks = b, links = l @ map (day_anchor m) (filter (\<lambda>d. d \<noteq> 0) ds)\<rparr>,
           pages = ps\<rparr>"
proof (induction ds arbitrary: l)
  case Nil
  show ?case by simp
next
  case (Cons d ds)
  then show ?case
    by (cases "d = 0") (auto simp: month_cell_def linkRect_def)
qed

lemma mk_date_valid:
  "1 \<le> y \<Longrightarrow> y \<le> 9999 \<Longrightarrow> 1 \<le> m \<Longrightarrow> m \<le> 12 \<Longrightarrow> 1 \<le> d \<Longrightarrow> d \<le> days_in_month y m \<Longrightarrow>
   mk_date y m d = Some \<lparr>date_year = y, date_month = m, date_day = d\<rparr>"
  by (simp add: mk_date_def)

lemma monthrange_eq:
  assumes "1 \<le> y" "y \<le> 9999" "1 \<le> m" "m \<le> 12"
  shows "monthrange y m
         = Some (weekday \<lparr>date_year = y, date_month = m, date_day = 1\<rparr>, days_in_month y m)"
proof -
  have "mk_date y m 1 = Some \<lparr>date_year = y, date_month = m, date_day = 1\<rparr>"
    using assms days_in_month_ge_28 [of m y] by (simp add: mk_date_def)
  moreover have "mdays ! nat m + (if m = 2 \<and> isleap y then 1 else 0) = days_in_month y m"
    using month_cases [OF assms(3,4)] by (auto simp: days_in_month_def mdays_def)
  ultimately show ?thesis
    using assms by (simp add: monthrange_def calendar_weekday_def)
qed

lemma filter_days: "filter (\<lambda>d. d \<noteq> 0) (replicate a 0 @ [1..n] @ replicate b (0::int)) = [1..n]"
proof -
  have "filter (\<lambda>d. d \<noteq> 0) [1..n] = [1..n]"
    by (rule filter_True) simp
  then show ?thesis by simp
qed

lemma create_month_page_eq:
  assumes "1 \<le> y" "y \<le> 9999" "1 \<le> m" "m \<le> 12"
  shows "create_month_page env y m (u, \<lparr>current = empty_page, pages = ps\<rparr>)
         = on_canvas (draw_page env (m, month_page y m) (u, ps))"
proof -
  define a where "a = nat ((weekday \<lparr>date_year = y, date_month = m, date_day = 1\<rparr> - 0) mod 7)"
  define b where "b = nat ((0 - weekday \<lparr>date_year = y, date_month = m, date_day = 1\<rparr>
                             - days_in_month y m) mod 7)"
  define cells where "cells = replicate a 0 @ [1..days_in_month y m] @ replicate b (0::int)"
  have cal: "monthcalendar y m = Some (chunks 7 cells)"
    by (simp add: monthcalendar_def itermonthdays_def monthrange_eq [OF assms] cells_def a_def b_def)
  have ok: "list_all (\<lambda>d. d = 0 \<or> mk_date y m d \<noteq> None) cells"
    using assms by (auto simp: cells_def list_all_iff mk_date_valid)
  have "for_each (\<lambda>week c. for_each (month_cell y m) week c) (chunks 7 cells)
          \<lparr>current = \<lparr>bookmarks = bs, links = l\<rparr>, pages = ps\<rparr>
        = Inr \<lparr>current = \<lparr>bookmarks = bs,
                   links = l @ map (day_anchor m) [1..days_in_month y m]\<rparr>, pages = ps\<rparr>" for bs l
    unfolding for_each_concat
    by (simp add: concat_chunks month_cells [OF ok]) (simp add: cells_def filter_days)
  then show ?thesis
    unfolding create_month_page_def draw_seasonal_background_eq empty_page_def
    by (simp add: draw_page_def on_canvas_def Let_def draw_month_tabs_eq filter_not_current
          filter_other cal bookmarkPage_def showPage_def month_page_def empty_page_def)
qed

lemma on_canvas_Inr: "on_canvas (Inr (u, ps)) = Inr (u, \<lparr>current = empty_page, pages = ps\<rparr>)"
  by (simp add: on_canvas_def)

lemma on_canvas_Inl:
  "on_canvas (Inl (e, u, ps)) = Inl (e, u, \<lparr>current = empty_page, pages = ps\<rparr>)"
  by (simp add: on_canvas_def)

lemma page_loop:
  assumes "\<And>x u ps. x \<in> set xs \<Longrightarrow>
             f x (u, \<lparr>current = empty_page, pages = ps\<rparr>)
             = on_canvas (for_each (draw_page env) (h x) (u, ps))"
  shows "for_each f xs (u, \<lparr>current = empty_page, pages = ps\<rparr>)
         = on_canvas (for_each (draw_page env) (concat (map h xs)) (u, ps))"
  using assms
proof (induction xs arbitrary: u ps)
  case Nil
  show ?case by (simp add: on_canvas_def)
next
  case (Cons x xs)
  show ?case
  proof (cases "for_each (draw_page env) (h x) (u, ps)")
    case (Inl es)
    then show ?thesis
      using Cons.prems [of x u ps]
      by (cases es) (simp add: for_each_append on_canvas_def split: prod.splits)
  next
    case (Inr s)
    obtain u' ps' where s: "s = (u', ps')" by (cases s)
    have "for_each f xs (u', \<lparr>current = empty_page, pages = ps'\<rparr>)
          = on_canvas (for_each (draw_page env) (concat (map h xs)) (u', ps'))"
      by (rule Cons.IH) (simp add: Cons.prems)
    then show ?thesis
      using Cons.prems [of x u ps] Inr s
      by (simp add: for_each_append on_canvas_def)
  qed
qed

lemma for_each_single:
  "(case r of Inl es \<Rightarrow> Inl es | Inr s \<Rightarrow> for_each body [] s) = r"
  by (cases r) simp_all

lemma month_loop:
  assumes "1 \<le> y" "y \<le> 9999" "list_all (\<lambda>m. 1 \<le> m \<and> m \<le> 12) ms"
  shows "for_each (\<lambda>mon d. create_month_page env y mon d) ms
           (u, \<lparr>current = empty_page, pages = ps\<rparr>)
         = on_canvas (for_each (draw_page env) (map (\<lambda>m. (m, month_page y m)) ms) (u, ps))"
proof -
  have "for_each (\<lambda>mon d. create_month_page env y mon d) ms
           (u, \<lparr>current = empty_page, pages = ps\<rparr>)
        = on_canvas (for_each (draw_page env)
            (concat (map (\<lambda>m. [(m, month_page y m)]) ms)) (u, ps))"
    using assms(3)
    by (intro page_loop) (simp add: list_all_iff create_month_page_eq [OF assms(1,2)] for_each_single)
  then show ?thesis by (simp add: concat_map_singleton)
qed

lemma day_pages_of_month_eq:
  assumes "1 \<le> y" "y \<le> 9999" "1 \<le> m" "m \<le> 12"
  shows "day_pages_of_month env y m (u, \<lparr>current = empty_page, pages = ps\<rparr>)
    = on_canvas (for_each (draw_page env)
        (map (\<lambda>d. (m, day_page m d)) [1..days_in_month y m]) (u, ps))"
proof -
  have "for_each (\<lambda>dy d. create_day_page env y m dy d) [1..days_in_month y m]
           (u, \<lparr>current = empty_page, pages = ps\<rparr>)
        = on_canvas (for_each (draw_page env)
            (concat (map (\<lambda>d. [(m, day_page m d)]) [1..days_in_month y m])) (u, ps))"
    using assms
    by (intro page_loop) (simp add: create_day_page_eq [OF mk_date_valid] for_each_single)
  then show ?thesis
    by (simp add: day_pages_of_month_def monthrange_eq [OF assms] concat_map_singleton)
qed

lemma days_loop:
  assumes "1 \<le> y" "y \<le> 9999" "list_all (\<lambda>m. 1 \<le> m \<and> m \<le> 12) ms"
  shows "for_each (\<lambda>mon d. day_pages_of_month env y mon d) ms
           (u, \<lparr>current = empty_page, pages = ps\<rparr>)
    = on_canvas (for_each (draw_page env)
        (concat (map (\<lambda>m. map (\<lambda>d. (m, day_page m d)) [1..days_in_month y m]) ms)) (u, ps))"
  using assms(3)
  by (intro page_loop) (simp add: list_all_iff day_pages_of_month_eq [OF assms(1,2)])

lemma months_valid: "list_all (\<lambda>m. 1 \<le> m \<and> m \<le> 12) [1..12]"
  by (simp add: list_all_iff)

lemma generate_diary_eq:
  assumes "1 \<le> y" "y \<le> 9999"
  shows "generate_diary env y u = outcome (for_each (draw_page env) (schedule y) (u, []))"
proof -
  let ?ms = "map (\<lambda>m. (m, month_page y m)) [1..12]"
  let ?ds = "concat (map (\<lambda>m. map (\<lambda>d. (m, day_page m d)) [1..days_in_month y m]) [1..12])"
  show ?thesis
  proof (cases "draw_page env (6, cover_page) (u, [])")
    case (Inl es)
    then show ?thesis
      by (cases es)
         (simp add: generate_diary_def new_canvas_def create_cover_page_eq schedule_def
            outcome_def on_canvas_def split: prod.splits)
  next
    case c: (Inr s)
    obtain u1 ps1 where s: "s = (u1, ps1)" by (cases s)
    show ?thesis
    proof (cases "for_each (draw_page env) ?ms (u1, ps1)")
      case (Inl es)
      then show ?thesis
        using c s
        by (cases es)
           (simp add: generate_diary_def new_canvas_def create_cover_page_eq schedule_def
              month_loop [OF assms months_valid] for_each_append
              outcome_def on_canvas_def split: prod.splits)
    next
      case m: (Inr s2)
      obtain u2 ps2 where s2: "s2 = (u2, ps2)" by (cases s2)
      show ?thesis
        using c s m s2
        by (cases "for_each (draw_page env) ?ds (u2, ps2)")
           (simp_all add: generate_diary_def new_canvas_def create_cover_page_eq schedule_def
              month_loop [OF assms months_valid] days_loop [OF assms months_valid]
              for_each_append outcome_def on_canvas_def split: prod.splits)
    qed
  qed
qed

lemma months_list: "[1..12] = [1, 2, 3, 4, 5, 6, 7, 8, 9, 10, 11, (12::int)]"
  by code_simp

lemma day_count:
  "length (concat (map (\<lambda>m. map (day_page m) [1..days_in_month y m]) [1..12]))
   = (if isleap y then 366 else 365)"
  unfolding months_list by (simp add: days_in_month_def mdays_def)

lemma schedule_pages: "map snd (schedule y) = document y"
  by (simp add: schedule_def document_def map_concat o_def)

lemma schedule_months:
  "map fst (schedule y)
   = 6 # [1..12] @ concat (map (\<lambda>m. map (\<lambda>d. m) [1..days_in_month y m]) [1..12])"
  by (simp add: schedule_def map_concat o_def)

lemma run_complete:
  "u \<Longrightarrow> list_all (background_loads env) (map fst xs) \<Longrightarrow>
   for_each (draw_page env) xs (u, ps) = Inr (True, ps @ map snd xs)"
  by (induction xs arbitrary: ps) (simp_all add: draw_page_def)

lemma run_result:
  "for_each (draw_page env) xs (u, ps) = Inr (u', ps') \<Longrightarrow>
   ps' = ps @ map snd xs \<and> u' = (u \<and> list_all (background_loads env) (map fst xs))"
proof (induction xs arbitrary: u ps)
  case Nil
  then show ?case by simp
next
  case (Cons x xs)
  show ?case
  proof (cases "draw_page env x (u, ps)")
    case (Inl es)
    with Cons.prems show ?thesis by simp
  next
    case (Inr s)
    then have s: "s = (u \<and> background_loads env (fst x), ps @ [snd x])"
      by (simp add: draw_page_def split: if_splits)
    from Cons.prems Inr s
    have "for_each (draw_page env) xs (u \<and> background_loads env (fst x), ps @ [snd x])
          = Inr (u', ps')"
      by simp
    from Cons.IH [OF this] show ?thesis by auto
  qed
qed

lemma run_raise:
  "for_each (draw_page env) xs (u, ps) = Inl (e, u', ps') \<Longrightarrow>
   e = AttributeError \<and> (\<exists>n<length xs. ps' = ps @ take n (map snd xs))"
proof (induction xs arbitrary: u ps)
  case Nil
  then show ?case by simp
next
  case (Cons x xs)
  show ?case
  proof (cases "draw_page env x (u, ps)")
    case (Inl es)
    with Cons.prems have "e = AttributeError" "ps' = ps"
      by (simp_all add: draw_page_def split: if_splits)
    then show ?thesis by auto
  next
    case (Inr s)
    then have s: "s = (u \<and> background_loads env (fst x), ps @ [snd x])"
      by (simp add: draw_page_def split: if_splits)
    from Cons.prems Inr s
    have "for_each (draw_page env) xs (u \<and> background_loads env (fst x), ps @ [snd x])
          = Inl (e, u', ps')"
      by simp
    from Cons.IH [OF this] obtain n where
      n: "e = AttributeError" "n < length xs" "ps' = (ps @ [snd x]) @ take n (map snd xs)"
      by auto
    then have "Suc n < length (x # xs)" "ps' = ps @ take (Suc n) (map snd (x # xs))"
      by simp_all
    with n(1) show ?thesis by blast
  qed
qed

lemma run_needs_flag:
  "for_each (draw_page env) xs (u, ps) = Inr s \<Longrightarrow>
   \<exists>x\<in>set xs. get_season_from_month (fst x) = Winter \<Longrightarrow> u"
proof (induction xs arbitrary: u ps)
  case Nil
  then show ?case by simp
next
  case (Cons x xs)
  show ?case
  proof (cases "draw_page env x (u, ps)")
    case (Inl es)
    with Cons.prems show ?thesis by simp
  next
    case (Inr s1)
    then have s: "s1 = (u \<and> background_loads env (fst x), ps @ [snd x])"
      and w: "get_season_from_month (fst x) = Winter \<Longrightarrow> u"
      by (simp_all add: draw_page_def split: if_splits)
    show ?thesis
    proof (cases "get_season_from_month (fst x) = Winter")
      case True
      with w show ?thesis .
    next
      case False
      with Cons.prems(2) have "\<exists>x\<in>set xs. get_season_from_month (fst x) = Winter" by auto
      moreover from Cons.prems(1) Inr s
      have "for_each (draw_page env) xs (u \<and> background_loads env (fst x), ps @ [snd x]) = Inr s"
        by simp
      ultimately have "u \<and> background_loads env (fst x)" by (rule Cons.IH [rotated])
      then show ?thesis by simp
    qed
  qed
qed

lemma season_cases:
  "get_season_from_month m = Winter \<or> get_season_from_month m = Spring
   \<or> get_season_from_month m = Summer \<or> get_season_from_month m = Autumn"
  by (cases "get_season_from_month m") simp_all

lemma usable_loads:
  "images_usable env u \<Longrightarrow> background_loads env m"
  using season_cases [of m] by (auto simp: images_usable_def background_loads_def)

lemma usable_schedule:
  "images_usable env u \<Longrightarrow> list_all (background_loads env) (map fst xs)"
  by (simp add: list_all_iff usable_loads)

lemma loads_usable:
  assumes "u" "list_all (background_loads env) [1..12]"
  shows "images_usable env u"
proof -
  from assms(2) have "background_loads env 1" "background_loads env 3"
    "background_loads env 6" "background_loads env 9"
    by (simp_all add: list_all_iff)
  with assms(1) show ?thesis
    by (simp add: images_usable_def background_loads_def get_season_from_month_def)
qed

lemma first_day_page:
  "1 \<le> y \<Longrightarrow> y \<le> 9999 \<Longrightarrow>
   (1, day_page 1 1)
     \<in> set (concat (map (\<lambda>m. map (\<lambda>d. (m, day_page m d)) [1..days_in_month y m]) [1..12]))"
  using days_in_month_ge_28 [of 1 y]
  by (simp del: set_upto) (intro bexI [of _ 1] image_eqI [of _ _ 1], simp_all)

lemma generate_diary_complete:
  assumes "1 \<le> y" "y \<le> 9999" "images_usable env u"
  shows "generate_diary env y u = Inr (document y)"
proof -
  from assms(3) have "u" by (simp add: images_usable_def)
  from run_complete [OF this usable_schedule [OF assms(3)], of "schedule y" "[]"]
  show ?thesis
    by (simp add: generate_diary_eq [OF assms(1,2)] outcome_def schedule_pages)
qed

lemma generate_diary_raises:
  assumes "1 \<le> y" "y \<le> 9999" "\<not> images_usable env u"
  shows "\<exists>n<length (document y). generate_diary env y u = Inl (AttributeError, take n (document y))"
proof (cases "for_each (draw_page env) (schedule y) (u, [])")
  case (Inl es)
  obtain e u' ps' where es: "es = (e, u', ps')" by (cases es)
  from run_raise [OF Inl [unfolded es]] obtain n where
    "e = AttributeError" "n < length (schedule y)" "ps' = take n (map snd (schedule y))"
    by auto
  then have "n < length (document y)"
    "generate_diary env y u = Inl (AttributeError, take n (document y))"
    using Inl es
    by (simp_all add: generate_diary_eq [OF assms(1,2)] outcome_def schedule_pages [symmetric])
  then show ?thesis by blast
next
  case (Inr s)
  let ?as = "(6, cover_page) # map (\<lambda>m. (m, month_page y m)) [1..12]"
  let ?bs = "concat (map (\<lambda>m. map (\<lambda>d. (m, day_page m d)) [1..days_in_month y m]) [1..12])"
  have sch: "schedule y = ?as @ ?bs" by (simp add: schedule_def)
  from Inr obtain s1 where a: "for_each (draw_page env) ?as (u, []) = Inr s1"
    and b: "for_each (draw_page env) ?bs s1 = Inr s"
    unfolding sch for_each_append by (auto split: sum.splits)
  obtain u1 ps1 where s1: "s1 = (u1, ps1)" by (cases s1)
  have "\<exists>x\<in>set ?bs. get_season_from_month (fst x) = Winter"
    using first_day_page [OF assms(1,2)]
    by (intro bexI [of _ "(1, day_page 1 1)"]) (simp_all add: get_season_from_month_def)
  from run_needs_flag [OF b [unfolded s1] this] have u1: "u1" .
  from run_result [OF a [unfolded s1]] u1
  have "u" "list_all (background_loads env) (map fst ?as)"
    by simp_all
  then have "images_usable env u"
    by (intro loads_usable) (simp_all add: o_def)
  with assms(3) show ?thesis by simp
qed

lemma generate_diary_no_images:
  assumes "1 \<le> y" "y \<le> 9999"
  shows "generate_diary env y False = Inl (AttributeError, [cover_page])"
  unfolding generate_diary_eq [OF assms] schedule_def months_list
  by (simp add: draw_page_def get_season_from_month_def outcome_def)


lemma list_all_take: "list_all P xs \<Longrightarrow> list_all P (take n xs)"
  using set_take_subset [of n xs] by (auto simp: list_all_iff)

section \<open>Properties of the link graph\<close>









lemma no_self_links:
  "list_all (\<lambda>p. set (bookmarks p) \<inter> set (links p) = {})
     (cover_page # map (month_page y) ms @ concat (map (\<lambda>m. map (day_page m) (ds m)) ms'))"
  by (auto simp: list_all_iff cover_page_def month_page_def day_page_def
        month_anchor_not_day_anchor month_anchor_not_day_anchor [symmetric]
        dest: month_anchor_inj)

lemma length_other_months: "1 \<le> m \<Longrightarrow> m \<le> 12 \<Longrightarrow> length (filter (\<lambda>i. i \<noteq> m) [1..12]) = 11"
  using month_cases [of m] unfolding months_list by auto

lemma cover_not_month_anchor: "''cover'' \<notin> set (map month_anchor ms)"
  by (induction ms) (simp_all add: month_anchor_def)





lemma document_no_self_links:
  "list_all (\<lambda>p. set (bookmarks p) \<inter> set (links p) = {}) (document y)"
  unfolding document_def by (rule no_self_links)

lemma document_page_bookmarks:
  "map bookmarks (document y)
   = [] # map (\<lambda>m. [month_anchor m]) [1..12]
       @ concat (map (\<lambda>m. map (\<lambda>d. [day_anchor m d]) [1..days_in_month y m]) [1..12])"
  by (simp add: document_def cover_page_def month_page_def day_page_def map_concat o_def)

lemma document_length: "length (document y) = 1 + 12 + (if isleap y then 366 else 365)"
  unfolding document_def using day_count [of y] by simp

lemma hd_take_document: "0 < n \<Longrightarrow> hd (take n (document y)) = cover_page"
  by (cases n) (simp_all add: document_def)

lemma rendered_page:
  "rendered (on_canvas (draw_page env (m, p) (u, [])))
   = (if get_season_from_month m = Winter \<and> \<not> (u \<and> background_loads env m) then None
      else Some p)"
  by (simp add: rendered_def on_canvas_def draw_page_def)

lemma rendered_cover:
  "rendered (create_cover_page env (u, new_canvas)) = Some cover_page"
  unfolding new_canvas_def create_cover_page_eq rendered_page
  by (simp add: get_season_from_month_def)

lemma rendered_month:
  "1 \<le> y \<Longrightarrow> y \<le> 9999 \<Longrightarrow> 1 \<le> m \<Longrightarrow> m \<le> 12 \<Longrightarrow> images_usable env u \<Longrightarrow>
   rendered (create_month_page env y m (u, new_canvas)) = Some (month_page y m)"
  unfolding new_canvas_def
  by (simp add: create_month_page_eq rendered_page usable_loads [of env u] images_usable_def)

lemma rendered_day:
  "1 \<le> y \<Longrightarrow> y \<le> 9999 \<Longrightarrow> 1 \<le> m \<Longrightarrow> m \<le> 12 \<Longrightarrow> 1 \<le> d \<Longrightarrow> d \<le> days_in_month y m \<Longrightarrow>
   images_usable env u \<Longrightarrow>
   rendered (create_day_page env y m d (u, new_canvas)) = Some (day_page m d)"
  unfolding new_canvas_def
  by (simp add: create_day_page_eq [OF mk_date_valid] rendered_page usable_loads [of env u]
        images_usable_def)

lemma rendered_months:
  assumes "1 \<le> y" "y \<le> 9999" "images_usable env u"
  shows "list_all (\<lambda>m. 1 \<le> m \<and> m \<le> 12) ms \<Longrightarrow>
    map (\<lambda>m. rendered (create_month_page env y m (u, new_canvas))) ms
    = map Some (map (month_page y) ms)"
  by (induction ms) (simp_all add: rendered_month [OF assms(1,2) _ _ assms(3)])

lemma rendered_days:
  assumes "1 \<le> y" "y \<le> 9999" "1 \<le> m" "m \<le> 12" "images_usable env u"
  shows "list_all (\<lambda>d. 1 \<le> d \<and> d \<le> days_in_month y m) ds \<Longrightarrow>
    map (\<lambda>d. rendered (create_day_page env y m d (u, new_canvas))) ds
    = map Some (map (day_page m) ds)"
  by (induction ds) (simp_all add: rendered_day [OF assms(1-4) _ _ assms(5)])

lemma rendered_all_days:
  assumes "1 \<le> y" "y \<le> 9999" "images_usable env u"
  shows "list_all (\<lambda>m. 1 \<le> m \<and> m \<le> 12) ms \<Longrightarrow>
    concat (map (\<lambda>m. map (\<lambda>d. rendered (create_day_page env y m d (u, new_canvas)))
                   [1..days_in_month y m]) ms)
    = map Some (concat (map (\<lambda>m. map (day_page m) [1..days_in_month y m]) ms))"
proof (induction ms)
  case Nil
  show ?case by simp
next
  case (Cons m ms)
  have "list_all (\<lambda>d. 1 \<le> d \<and> d \<le> days_in_month y m) [1..days_in_month y m]"
    by (simp add: list_all_iff)
  with Cons rendered_days [OF assms(1,2) _ _ assms(3), of m "[1..days_in_month y m]"]
  show ?case by simp
qed

lemma isleap_gregorian:
  "isleap y = (y mod 4 = 0 \<and> (y mod 100 \<noteq> 0 \<or> y mod 400 = 0))"
  by (simp add: isleap_def)

lemma usable_all_images: "images_usable all_images (check_image_files all_images)"
  by (simp add: images_usable_def check_image_files_def all_images_def)

lemma not_usable_no_images: "\<not> images_usable no_images (check_image_files no_images)"
  by (simp add: images_usable_def check_image_files_def no_images_def)

lemma cover_always_finished:
  assumes "1 \<le> y" "y \<le> 9999"
  shows "generate_diary env y u \<noteq> Inl (e, [])"
proof (cases u)
  case True
  have "for_each (draw_page env) (schedule y) (u, []) \<noteq> Inl (e, u', [])" for u'
  proof
    assume "for_each (draw_page env) (schedule y) (u, []) = Inl (e, u', [])"
    then have "for_each (draw_page env) (map (\<lambda>m. (m, month_page y m)) [1..12]
        @ concat (map (\<lambda>m. map (\<lambda>d. (m, day_page m d)) [1..days_in_month y m]) [1..12]))
        (u \<and> background_loads env 6, [cover_page]) = Inl (e, u', [])"
      by (simp add: schedule_def draw_page_def get_season_from_month_def)
    from run_raise [OF this] show False by simp
  qed
  then show ?thesis
    by (auto simp: generate_diary_eq [OF assms] outcome_def split: sum.splits)
next
  case False
  then show ?thesis by (simp add: generate_diary_no_images [OF assms])
qed



text \<open>
  C2. For every year from 1900 to 2100 and every environment, no page that
  \<^verbatim>\<open>generate_diary\<close> finishes links to itself, whether the build is full or stops at a
  winter background. The pages finished are the first n pages, n at least 1, of the cover,
  the month pages and the day pages; the cover bookmarks no anchor (and has no link to an
  anchor \<open>cover\<close>), the page of month m bookmarks \<open>month_m\<close>, the page of day d of month m
  bookmarks \<open>day_m_d\<close>; on every finished page the bookmarked anchors and the link targets
  are disjoint. When the background images are in use and load the build is full and the
  pages are all of them.
\<close>

theorem no_page_links_to_itself:
  assumes "1900 \<le> Y" "Y \<le> 2100"
  shows "\<exists>ps n. pages_finished (generate_diary env Y use_images) = ps
          \<and> 0 < n
          \<and> map bookmarks ps
              = take n ([] # map (\<lambda>m. [month_anchor m]) [1..12]
                  @ concat (map (\<lambda>m. map (\<lambda>d. [day_anchor m d]) [1..days_in_month Y m])
                      [1..12]))
          \<and> list_all (\<lambda>p. set (bookmarks p) \<inter> set (links p) = {}) ps
          \<and> ''cover'' \<notin> set (links (hd ps))
          \<and> (images_usable env use_images \<longrightarrow>
               generate_diary env Y use_images = Inr ps
               \<and> map bookmarks ps
                   = [] # map (\<lambda>m. [month_anchor m]) [1..12]
                       @ concat (map (\<lambda>m. map (\<lambda>d. [day_anchor m d]) [1..days_in_month Y m])
                           [1..12]))
          \<and> (\<not> images_usable env use_images \<longrightarrow>
               generate_diary env Y use_images = Inl (AttributeError, ps))"
proof -
  from assms have y: "1 \<le> Y" "Y \<le> 9999" by simp_all
  obtain n where n: "0 < n"
    and g: "pages_finished (generate_diary env Y use_images) = take n (document Y)"
    and f: "images_usable env use_images \<Longrightarrow>
              generate_diary env Y use_images = Inr (take n (document Y))
              \<and> take n (document Y) = document Y"
    and r: "\<not> images_usable env use_images \<Longrightarrow>
              generate_diary env Y use_images = Inl (AttributeError, take n (document Y))"
  proof (cases "images_usable env use_images")
    case True
    from generate_diary_complete [OF y True] True show ?thesis
      by (intro that [of "length (document Y)"]) (simp_all add: pages_finished_def document_def)
  next
    case False
    from generate_diary_raises [OF y False] obtain k where
      k: "generate_diary env Y use_images = Inl (AttributeError, take k (document Y))"
      by auto
    with cover_always_finished [OF y, of env use_images AttributeError] have "0 < k"
      by (cases k) simp_all
    with k False show ?thesis
      by (intro that [of k]) (simp_all add: pages_finished_def)
  qed
  define ps where "ps = take n (document Y)"
  have b: "map bookmarks ps
      = take n ([] # map (\<lambda>m. [month_anchor m]) [1..12]
          @ concat (map (\<lambda>m. map (\<lambda>d. [day_anchor m d]) [1..days_in_month Y m]) [1..12]))"
    unfolding ps_def take_map document_page_bookmarks [symmetric] ..
  have s: "list_all (\<lambda>p. set (bookmarks p) \<inter> set (links p) = {}) ps"
    unfolding ps_def by (rule list_all_take [OF document_no_self_links])
  have c: "''cover'' \<notin> set (links (hd ps))"
    unfolding ps_def hd_take_document [OF n]
    by (simp add: cover_page_def cover_not_month_anchor del: set_map)
  have f': "images_usable env use_images \<longrightarrow>
               generate_diary env Y use_images = Inr ps
               \<and> map bookmarks ps
                   = [] # map (\<lambda>m. [month_anchor m]) [1..12]
                       @ concat (map (\<lambda>m. map (\<lambda>d. [day_anchor m d]) [1..days_in_month Y m])
                           [1..12])"
    using f unfolding ps_def by (simp add: document_page_bookmarks)
  have r': "\<not> images_usable env use_images \<longrightarrow>
               generate_diary env Y use_images = Inl (AttributeError, ps)"
    using r unfolding ps_def by simp
  show ?thesis
    by (rule exI [of _ ps], rule exI [of _ n], intro conjI)
       (rule g [folded ps_def] n b s c f' r')+
qed

theorem no_page_links_to_itself_witness:
  "(1900::int) \<le> 2023 \<and> (2023::int) \<le> 2100
   \<and> rendered (create_cover_page no_images (check_image_files no_images, new_canvas))
       = Some \<lparr>bookmarks = [],
           links = [''month_1'', ''month_2'', ''month_3'', ''month_4'', ''month_5'', ''month_6'',
                    ''month_7'', ''month_8'', ''month_9'', ''month_10'', ''month_11'',
                    ''month_12'']\<rparr>
   \<and> images_usable all_images (check_image_files all_images)
   \<and> (\<exists>ps. generate_diary all_images 2023 (check_image_files all_images) = Inr ps
          \<and> map bookmarks ps
              = [] # map (\<lambda>m. [month_anchor m]) [1..12]
                  @ concat (map (\<lambda>m. map (\<lambda>d. [day_anchor m d]) [1..days_in_month 2023 m])
                      [1..12])
          \<and> list_all (\<lambda>p. set (bookmarks p) \<inter> set (links p) = {}) ps
          \<and> ''cover'' \<notin> set (links (hd ps)))
   \<and> \<not> images_usable no_images (check_image_files no_images)
   \<and> (\<exists>ps. generate_diary no_images 2023 (check_image_files no_images)
             = Inl (AttributeError, ps)
          \<and> ps \<noteq> []
          \<and> list_all (\<lambda>p. set (bookmarks p) \<inter> set (links p) = {}) ps
          \<and> ''cover'' \<notin> set (links (hd ps)))"
proof -
  have a: "(1900::int) \<le> 2023" by simp
  have b: "(2023::int) \<le> 2100" by simp
  have e: "rendered (create_cover_page no_images (check_image_files no_images, new_canvas))
       = Some \<lparr>bookmarks = [],
           links = [''month_1'', ''month_2'', ''month_3'', ''month_4'', ''month_5'', ''month_6'',
                    ''month_7'', ''month_8'', ''month_9'', ''month_10'', ''month_11'',
                    ''month_12'']\<rparr>"
    by code_simp
  have u: "images_usable all_images (check_image_files all_images)"
    by (rule usable_all_images)
  have n: "\<not> images_usable no_images (check_image_files no_images)"
    by (rule not_usable_no_images)
  from no_page_links_to_itself [OF a b, of all_images "check_image_files all_images"]
  obtain ps k where
    p: "list_all (\<lambda>p. set (bookmarks p) \<inter> set (links p) = {}) ps"
       "''cover'' \<notin> set (links (hd ps))"
       "images_usable all_images (check_image_files all_images) \<longrightarrow>
          generate_diary all_images 2023 (check_image_files all_images) = Inr ps
          \<and> map bookmarks ps
              = [] # map (\<lambda>m. [month_anchor m]) [1..12]
                  @ concat (map (\<lambda>m. map (\<lambda>d. [day_anchor m d]) [1..days_in_month 2023 m])
                      [1..12])"
    by (elim exE conjE)
  note f = p(3) [THEN mp, OF u]
  have full: "\<exists>ps. generate_diary all_images 2023 (check_image_files all_images) = Inr ps
          \<and> map bookmarks ps
              = [] # map (\<lambda>m. [month_anchor m]) [1..12]
                  @ concat (map (\<lambda>m. map (\<lambda>d. [day_anchor m d]) [1..days_in_month 2023 m])
                      [1..12])
          \<and> list_all (\<lambda>p. set (bookmarks p) \<inter> set (links p) = {}) ps
          \<and> ''cover'' \<notin> set (links (hd ps))"
    by (rule exI [of _ ps], intro conjI) (rule f [THEN conjunct1] f [THEN conjunct2] p(1) p(2))+
  from no_page_links_to_itself [OF a b, of no_images "check_image_files no_images"]
  obtain qs j where
    q: "0 < j"
       "map bookmarks qs
          = take j ([] # map (\<lambda>m. [month_anchor m]) [1..12]
              @ concat (map (\<lambda>m. map (\<lambda>d. [day_anchor m d]) [1..days_in_month 2023 m])
                  [1..12]))"
       "list_all (\<lambda>p. set (bookmarks p) \<inter> set (links p) = {}) qs"
       "''cover'' \<notin> set (links (hd qs))"
       "\<not> images_usable no_images (check_image_files no_images) \<longrightarrow>
          generate_diary no_images 2023 (check_image_files no_images) = Inl (AttributeError, qs)"
    by (elim exE conjE)
  from q(1) have "take j ([] # xs) \<noteq> []" for xs :: "string list list"
    by (cases j) simp_all
  with q(2) have ne: "qs \<noteq> []" by (cases qs) simp_all
  have part: "\<exists>ps. generate_diary no_images 2023 (check_image_files no_images)
             = Inl (AttributeError, ps)
          \<and> ps \<noteq> []
          \<and> list_all (\<lambda>p. set (bookmarks p) \<inter> set (links p) = {}) ps
          \<and> ''cover'' \<notin> set (links (hd ps))"
    by (rule exI [of _ qs], intro conjI) (rule q(5) [THEN mp, OF n] ne q(3) q(4))+
  show ?thesis
    by (intro conjI) (rule a b e u n full part)+
qed

text \<open>
  C3, as the source has it. \<^verbatim>\<open>create_day_page\<close> calls \<^verbatim>\<open>draw_month_tabs(c, month_num)\<close>:
  the tab of the day's own month is the current one and gets no link. The page of day d of
  month m therefore carries eleven month links, to every month but m, and none to
  \<open>month_m\<close>. First the page of 15 June 2024, with no image files and with all of them: in
  both it has no link to \<open>month_6\<close>.
\<close>

theorem day_page_has_no_link_to_its_month:
  "create_day_page no_images 2024 6 15 (check_image_files no_images, new_canvas)
     = Inr (False,
         \<lparr>current = empty_page,
          pages = [\<lparr>bookmarks = [''day_6_15''],
                    links = [''month_1'', ''month_2'', ''month_3'', ''month_4'', ''month_5'',
                             ''month_7'', ''month_8'', ''month_9'', ''month_10'', ''month_11'',
                             ''month_12'']\<rparr>]\<rparr>)
   \<and> create_day_page all_images 2024 6 15 (check_image_files all_images, new_canvas)
     = Inr (True,
         \<lparr>current = empty_page,
          pages = [\<lparr>bookmarks = [''day_6_15''],
                    links = [''month_1'', ''month_2'', ''month_3'', ''month_4'', ''month_5'',
                             ''month_7'', ''month_8'', ''month_9'', ''month_10'', ''month_11'',
                             ''month_12'']\<rparr>]\<rparr>)
   \<and> month_anchor 6 = ''month_6''
   \<and> month_anchor 6 \<notin> set [''month_1'', ''month_2'', ''month_3'', ''month_4'', ''month_5'',
                               ''month_7'', ''month_8'', ''month_9'', ''month_10'', ''month_11'',
                               ''month_12'']"
  by code_simp

text \<open>
  C3 amended. For every year from 1900 to 2100, every day d of a month m and every
  environment: when the background of the page is drawn (the month is not a winter month, or
  images are in use and the winter image loads), the day page bookmarks \<open>day_m_d\<close> and its
  links are the eleven anchors \<open>month_i\<close> with i from 1 to 12 other than m, in that order;
  \<open>month_m\<close> is not among them. Otherwise \<^verbatim>\<open>create_day_page\<close> raises \<^verbatim>\<open>AttributeError\<close>
  before it has put a link or a bookmark on the page, and no page is finished.
\<close>

theorem day_page_month_links:
  assumes "1900 \<le> Y" "Y \<le> 2100" "1 \<le> m" "m \<le> 12" "1 \<le> d" "d \<le> days_in_month Y m"
  shows "(get_season_from_month m \<noteq> Winter
            \<or> (use_images \<and> image_loads env (SEASON_BACKGROUNDS Winter)) \<longrightarrow>
           (\<exists>p. rendered (create_day_page env Y m d (use_images, new_canvas)) = Some p
              \<and> bookmarks p = [day_anchor m d]
              \<and> links p = map month_anchor (filter (\<lambda>i. i \<noteq> m) [1..12])
              \<and> length (links p) = 11
              \<and> month_anchor m \<notin> set (links p)))
       \<and> (get_season_from_month m = Winter
            \<and> \<not> (use_images \<and> image_loads env (SEASON_BACKGROUNDS Winter)) \<longrightarrow>
           create_day_page env Y m d (use_images, new_canvas)
           = Inl (AttributeError, False, new_canvas))"
proof (intro conjI impI)
  from assms have dt: "mk_date Y m d = Some \<lparr>date_year = Y, date_month = m, date_day = d\<rparr>"
    by (simp add: mk_date_valid)
  note eq = create_day_page_eq [OF dt, of env use_images "[]", folded new_canvas_def]
  {
    assume "get_season_from_month m \<noteq> Winter
            \<or> (use_images \<and> image_loads env (SEASON_BACKGROUNDS Winter))"
    then have "\<not> (get_season_from_month m = Winter
                  \<and> \<not> (use_images \<and> background_loads env m))"
      by (auto simp: background_loads_def)
    then have "rendered (create_day_page env Y m d (use_images, new_canvas)) = Some (day_page m d)"
      unfolding eq rendered_page by simp
    moreover have "length (links (day_page m d)) = 11"
      using assms by (simp add: day_page_def length_other_months)
    moreover have "month_anchor m \<notin> set (links (day_page m d))"
      by (auto simp: day_page_def dest: month_anchor_inj)
    ultimately show "\<exists>p. rendered (create_day_page env Y m d (use_images, new_canvas)) = Some p
              \<and> bookmarks p = [day_anchor m d]
              \<and> links p = map month_anchor (filter (\<lambda>i. i \<noteq> m) [1..12])
              \<and> length (links p) = 11
              \<and> month_anchor m \<notin> set (links p)"
      by (simp add: day_page_def)
  }
  {
    assume "get_season_from_month m = Winter
            \<and> \<not> (use_images \<and> image_loads env (SEASON_BACKGROUNDS Winter))"
    then show "create_day_page env Y m d (use_images, new_canvas)
           = Inl (AttributeError, False, new_canvas)"
      unfolding eq
      by (simp add: draw_page_def on_canvas_def background_loads_def new_canvas_def)
  }
qed

theorem day_page_month_links_witness:
  "(1900::int) \<le> 2024 \<and> (2024::int) \<le> 2100 \<and> (1::int) \<le> 6 \<and> (6::int) \<le> 12
   \<and> (1::int) \<le> 15 \<and> 15 \<le> days_in_month 2024 6
   \<and> get_season_from_month 6 = Summer
   \<and> (\<exists>p. rendered (create_day_page no_images 2024 6 15 (check_image_files no_images, new_canvas))
            = Some p
          \<and> bookmarks p = [day_anchor 6 15]
          \<and> links p = map month_anchor (filter (\<lambda>i. i \<noteq> 6) [1..12])
          \<and> length (links p) = 11
          \<and> month_anchor 6 \<notin> set (links p))
   \<and> (1::int) \<le> 2 \<and> (2::int) \<le> 12 \<and> (1::int) \<le> 29 \<and> 29 \<le> days_in_month 2024 2
   \<and> get_season_from_month 2 = Winter
   \<and> check_image_files all_images \<and> image_loads all_images (SEASON_BACKGROUNDS Winter)
   \<and> (\<exists>p. rendered (create_day_page all_images 2024 2 29 (check_image_files all_images, new_canvas))
            = Some p
          \<and> bookmarks p = [day_anchor 2 29]
          \<and> links p = map month_anchor (filter (\<lambda>i. i \<noteq> 2) [1..12])
          \<and> length (links p) = 11
          \<and> month_anchor 2 \<notin> set (links p))
   \<and> \<not> check_image_files no_images
   \<and> create_day_page no_images 2024 2 29 (check_image_files no_images, new_canvas)
       = Inl (AttributeError, False, new_canvas)"
proof -
  have y: "(1900::int) \<le> 2024" "(2024::int) \<le> 2100" by simp_all
  have j: "(1::int) \<le> 6" "(6::int) \<le> 12" "(1::int) \<le> 15" by simp_all
  have jd: "15 \<le> days_in_month 2024 6" by code_simp
  have js: "get_season_from_month 6 = Summer" by code_simp
  have f: "(1::int) \<le> 2" "(2::int) \<le> 12" "(1::int) \<le> 29" by simp_all
  have fd: "29 \<le> days_in_month 2024 2" by code_simp
  have fs: "get_season_from_month 2 = Winter" by code_simp
  have u: "check_image_files all_images" by code_simp
  have l: "image_loads all_images (SEASON_BACKGROUNDS Winter)" by code_simp
  have n: "\<not> check_image_files no_images" by code_simp
  have c1: "get_season_from_month 6 \<noteq> Winter
      \<or> (check_image_files no_images \<and> image_loads no_images (SEASON_BACKGROUNDS Winter))"
    using js by simp
  have c2: "get_season_from_month 2 \<noteq> Winter
      \<or> (check_image_files all_images \<and> image_loads all_images (SEASON_BACKGROUNDS Winter))"
    using u l by simp
  have c3: "get_season_from_month 2 = Winter
      \<and> \<not> (check_image_files no_images \<and> image_loads no_images (SEASON_BACKGROUNDS Winter))"
    using fs n by simp
  note t1 = day_page_month_links [OF y j jd, THEN conjunct1, THEN mp, OF c1]
  note t2 = day_page_month_links [OF y f fd, THEN conjunct1, THEN mp, OF c2]
  note t3 = day_page_month_links [OF y f fd, THEN conjunct2, THEN mp, OF c3]
  show ?thesis
    by (intro conjI) (rule y j jd js f fd fs u l n t1 t2 t3)+
qed

text \<open>
  C6. For every year from 1900 to 2100: when the background images are in use and load,
  \<^verbatim>\<open>generate_diary\<close> finishes, and its pages are, in this order: the page
  \<^verbatim>\<open>create_cover_page\<close> draws, once; the pages \<^verbatim>\<open>create_month_page\<close> draws for the months 1
  to 12; the pages \<^verbatim>\<open>create_day_page\<close> draws for the months 1 to 12 and, within a month, the
  days 1 to the number of days \<^verbatim>\<open>calendar.monthrange\<close> gives for it. The day pages are 366
  when the year is divisible by 4 and either not by 100 or by 400, and 365 otherwise, which
  makes 379 or 378 pages. In every other environment \<^verbatim>\<open>generate_diary\<close> raises
  \<^verbatim>\<open>AttributeError\<close> with fewer pages finished; when no images are in use (some image file
  is missing), it raises with the cover alone finished: the page of January calls
  \<^verbatim>\<open>draw_winter_background\<close>, which the source means to draw the generated background of
  the winter months and which raises at its first tree.
\<close>

theorem generate_diary_page_order:
  assumes "1900 \<le> Y" "Y \<le> 2100"
  shows "(images_usable env use_images \<longrightarrow>
          (\<exists>ps. generate_diary env Y use_images = Inr ps
             \<and> map Some ps
                 = rendered (create_cover_page env (use_images, new_canvas))
                   # map (\<lambda>m. rendered (create_month_page env Y m (use_images, new_canvas))) [1..12]
                   @ concat (map (\<lambda>m. map (\<lambda>d. rendered (create_day_page env Y m d
                                                            (use_images, new_canvas)))
                                     [1..days_in_month Y m]) [1..12])
             \<and> list_all (\<lambda>m. map_option snd (monthrange Y m) = Some (days_in_month Y m)) [1..12]
             \<and> length (concat (map (\<lambda>m. [1..days_in_month Y m]) [1..12]))
                 = (if Y mod 4 = 0 \<and> (Y mod 100 \<noteq> 0 \<or> Y mod 400 = 0) then 366 else 365)
             \<and> length ps
                 = 1 + 12 + (if Y mod 4 = 0 \<and> (Y mod 100 \<noteq> 0 \<or> Y mod 400 = 0) then 366 else 365)))
       \<and> (\<not> images_usable env use_images \<longrightarrow>
          (\<exists>ps. generate_diary env Y use_images = Inl (AttributeError, ps)
             \<and> length ps
                 < 1 + 12 + (if Y mod 4 = 0 \<and> (Y mod 100 \<noteq> 0 \<or> Y mod 400 = 0) then 366 else 365)))
       \<and> (\<not> use_images \<longrightarrow>
          (\<exists>p. rendered (create_cover_page env (use_images, new_canvas)) = Some p
             \<and> generate_diary env Y use_images = Inl (AttributeError, [p])))"
proof (intro conjI impI)
  from assms have y: "1 \<le> Y" "Y \<le> 9999" by simp_all
  {
    assume u: "images_usable env use_images"
    define ps where "ps = document Y"
    have g: "generate_diary env Y use_images = Inr ps"
      unfolding ps_def by (rule generate_diary_complete [OF y u])
    have r: "map Some ps
                 = rendered (create_cover_page env (use_images, new_canvas))
                   # map (\<lambda>m. rendered (create_month_page env Y m (use_images, new_canvas))) [1..12]
                   @ concat (map (\<lambda>m. map (\<lambda>d. rendered (create_day_page env Y m d
                                                            (use_images, new_canvas)))
                                     [1..days_in_month Y m]) [1..12])"
      unfolding ps_def document_def
      by (simp only: rendered_cover rendered_months [OF y u months_valid]
            rendered_all_days [OF y u months_valid] list.map map_append)
    have m: "list_all (\<lambda>m. map_option snd (monthrange Y m) = Some (days_in_month Y m)) [1..12]"
      using y by (simp add: list_all_iff monthrange_eq)
    have c: "length (concat (map (\<lambda>m. [1..days_in_month Y m]) [1..12]))
                 = (if Y mod 4 = 0 \<and> (Y mod 100 \<noteq> 0 \<or> Y mod 400 = 0) then 366 else 365)"
      unfolding months_list isleap_gregorian [symmetric]
      by (simp add: days_in_month_def mdays_def)
    have n: "length ps
          = 1 + 12 + (if Y mod 4 = 0 \<and> (Y mod 100 \<noteq> 0 \<or> Y mod 400 = 0) then 366 else 365)"
      unfolding ps_def isleap_gregorian [symmetric] by (rule document_length)
    show "\<exists>ps. generate_diary env Y use_images = Inr ps
             \<and> map Some ps
                 = rendered (create_cover_page env (use_images, new_canvas))
                   # map (\<lambda>m. rendered (create_month_page env Y m (use_images, new_canvas))) [1..12]
                   @ concat (map (\<lambda>m. map (\<lambda>d. rendered (create_day_page env Y m d
                                                            (use_images, new_canvas)))
                                     [1..days_in_month Y m]) [1..12])
             \<and> list_all (\<lambda>m. map_option snd (monthrange Y m) = Some (days_in_month Y m)) [1..12]
             \<and> length (concat (map (\<lambda>m. [1..days_in_month Y m]) [1..12]))
                 = (if Y mod 4 = 0 \<and> (Y mod 100 \<noteq> 0 \<or> Y mod 400 = 0) then 366 else 365)
             \<and> length ps
                 = 1 + 12 + (if Y mod 4 = 0 \<and> (Y mod 100 \<noteq> 0 \<or> Y mod 400 = 0) then 366 else 365)"
      by (rule exI [of _ ps], intro conjI) (rule g r m c n)+
  }
  {
    assume u: "\<not> images_usable env use_images"
    from generate_diary_raises [OF y u] obtain k where
      k: "k < length (document Y)"
         "generate_diary env Y use_images = Inl (AttributeError, take k (document Y))"
      by auto
    from k(1) have "length (take k (document Y))
        < 1 + 12 + (if Y mod 4 = 0 \<and> (Y mod 100 \<noteq> 0 \<or> Y mod 400 = 0) then 366 else 365)"
      unfolding isleap_gregorian [symmetric] document_length [symmetric] by simp
    with k(2) show "\<exists>ps. generate_diary env Y use_images = Inl (AttributeError, ps)
             \<and> length ps
                 < 1 + 12 + (if Y mod 4 = 0 \<and> (Y mod 100 \<noteq> 0 \<or> Y mod 400 = 0) then 366 else 365)"
      by (intro exI [of _ "take k (document Y)"] conjI)
  }
  {
    assume "\<not> use_images"
    then show "\<exists>p. rendered (create_cover_page env (use_images, new_canvas)) = Some p
             \<and> generate_diary env Y use_images = Inl (AttributeError, [p])"
      by (simp add: rendered_cover generate_diary_no_images [OF y])
  }
qed

theorem generate_diary_page_order_witness:
  "(1900::int) \<le> 2000 \<and> (2000::int) \<le> 2100
   \<and> images_usable all_images (check_image_files all_images)
   \<and> (\<exists>ps. generate_diary all_images 2000 (check_image_files all_images) = Inr ps
          \<and> map Some ps
              = rendered (create_cover_page all_images (check_image_files all_images, new_canvas))
                # map (\<lambda>m. rendered (create_month_page all_images 2000 m
                                        (check_image_files all_images, new_canvas))) [1..12]
                @ concat (map (\<lambda>m. map (\<lambda>d. rendered (create_day_page all_images 2000 m d
                                                         (check_image_files all_images, new_canvas)))
                                  [1..days_in_month 2000 m]) [1..12])
          \<and> list_all (\<lambda>m. map_option snd (monthrange 2000 m) = Some (days_in_month 2000 m))
               [1..12]
          \<and> length (concat (map (\<lambda>m. [1..days_in_month 2000 m]) [1..12])) = 366
          \<and> length ps = 379)
   \<and> (1900::int) \<le> 1900 \<and> (1900::int) \<le> 2100
   \<and> (\<exists>ps. generate_diary all_images 1900 (check_image_files all_images) = Inr ps
          \<and> length (concat (map (\<lambda>m. [1..days_in_month 1900 m]) [1..12])) = 365
          \<and> length ps = 378)
   \<and> (1900::int) \<le> 2024 \<and> (2024::int) \<le> 2100
   \<and> \<not> check_image_files no_images
   \<and> \<not> images_usable no_images (check_image_files no_images)
   \<and> generate_diary no_images 2024 (check_image_files no_images)
       = Inl (AttributeError,
           [\<lparr>bookmarks = [],
             links = [''month_1'', ''month_2'', ''month_3'', ''month_4'', ''month_5'', ''month_6'',
                      ''month_7'', ''month_8'', ''month_9'', ''month_10'', ''month_11'',
                      ''month_12'']\<rparr>])
   \<and> create_month_page no_images 2024 1
        (False, \<lparr>current = empty_page,
                 pages = [\<lparr>bookmarks = [],
                   links = [''month_1'', ''month_2'', ''month_3'', ''month_4'', ''month_5'',
                            ''month_6'', ''month_7'', ''month_8'', ''month_9'', ''month_10'',
                            ''month_11'', ''month_12'']\<rparr>]\<rparr>)
       = Inl (AttributeError, False,
           \<lparr>current = empty_page,
            pages = [\<lparr>bookmarks = [],
              links = [''month_1'', ''month_2'', ''month_3'', ''month_4'', ''month_5'',
                       ''month_6'', ''month_7'', ''month_8'', ''month_9'', ''month_10'',
                       ''month_11'', ''month_12'']\<rparr>]\<rparr>)"
proof -
  have a: "(1900::int) \<le> 2000" "(2000::int) \<le> 2100" by simp_all
  have b: "(1900::int) \<le> 1900" "(1900::int) \<le> 2100" by simp_all
  have c: "(1900::int) \<le> 2024" "(2024::int) \<le> 2100" by simp_all
  have u: "images_usable all_images (check_image_files all_images)"
    by (rule usable_all_images)
  have n: "\<not> check_image_files no_images" by code_simp
  have n': "\<not> images_usable no_images (check_image_files no_images)"
    by (rule not_usable_no_images)
  note t2000 = generate_diary_page_order [OF a, of all_images "check_image_files all_images",
    THEN conjunct1, THEN mp, OF u]
  have full: "\<exists>ps. generate_diary all_images 2000 (check_image_files all_images) = Inr ps
          \<and> map Some ps
              = rendered (create_cover_page all_images (check_image_files all_images, new_canvas))
                # map (\<lambda>m. rendered (create_month_page all_images 2000 m
                                        (check_image_files all_images, new_canvas))) [1..12]
                @ concat (map (\<lambda>m. map (\<lambda>d. rendered (create_day_page all_images 2000 m d
                                                         (check_image_files all_images, new_canvas)))
                                  [1..days_in_month 2000 m]) [1..12])
          \<and> list_all (\<lambda>m. map_option snd (monthrange 2000 m) = Some (days_in_month 2000 m))
               [1..12]
          \<and> length (concat (map (\<lambda>m. [1..days_in_month 2000 m]) [1..12])) = 366
          \<and> length ps = 379"
    using t2000 by simp
  note t1900 = generate_diary_page_order [OF b, of all_images "check_image_files all_images",
    THEN conjunct1, THEN mp, OF u]
  from t1900 obtain qs where
    q: "generate_diary all_images 1900 (check_image_files all_images) = Inr qs"
       "length (concat (map (\<lambda>m. [1..days_in_month 1900 m]) [1..12]))
          = (if (1900::int) mod 4 = 0 \<and> ((1900::int) mod 100 \<noteq> 0 \<or> (1900::int) mod 400 = 0)
             then 366 else 365)"
       "length qs
          = 1 + 12 + (if (1900::int) mod 4 = 0
                         \<and> ((1900::int) mod 100 \<noteq> 0 \<or> (1900::int) mod 400 = 0)
                      then 366 else 365)"
    by (elim exE conjE)
  from q(2) have q2: "length (concat (map (\<lambda>m. [1..days_in_month 1900 m]) [1..12])) = 365"
    by simp
  from q(3) have q3: "length qs = 378"
    by simp
  have common: "\<exists>ps. generate_diary all_images 1900 (check_image_files all_images) = Inr ps
          \<and> length (concat (map (\<lambda>m. [1..days_in_month 1900 m]) [1..12])) = 365
          \<and> length ps = 378"
    by (rule exI [of _ qs], intro conjI) (rule q(1) q2 q3)+
  note t2024 = generate_diary_page_order [OF c, of no_images "check_image_files no_images",
    THEN conjunct2, THEN conjunct2, THEN mp, OF n]
  have cov: "rendered (create_cover_page no_images (check_image_files no_images, new_canvas))
      = Some \<lparr>bookmarks = [],
             links = [''month_1'', ''month_2'', ''month_3'', ''month_4'', ''month_5'', ''month_6'',
                      ''month_7'', ''month_8'', ''month_9'', ''month_10'', ''month_11'',
                      ''month_12'']\<rparr>"
    by code_simp
  from t2024 have part: "generate_diary no_images 2024 (check_image_files no_images)
       = Inl (AttributeError,
           [\<lparr>bookmarks = [],
             links = [''month_1'', ''month_2'', ''month_3'', ''month_4'', ''month_5'', ''month_6'',
                      ''month_7'', ''month_8'', ''month_9'', ''month_10'', ''month_11'',
                      ''month_12'']\<rparr>])"
    unfolding cov by simp
  have jan: "create_month_page no_images 2024 1
        (False, \<lparr>current = empty_page,
                 pages = [\<lparr>bookmarks = [],
                   links = [''month_1'', ''month_2'', ''month_3'', ''month_4'', ''month_5'',
                            ''month_6'', ''month_7'', ''month_8'', ''month_9'', ''month_10'',
                            ''month_11'', ''month_12'']\<rparr>]\<rparr>)
       = Inl (AttributeError, False,
           \<lparr>current = empty_page,
            pages = [\<lparr>bookmarks = [],
              links = [''month_1'', ''month_2'', ''month_3'', ''month_4'', ''month_5'',
                       ''month_6'', ''month_7'', ''month_8'', ''month_9'', ''month_10'',
                       ''month_11'', ''month_12'']\<rparr>]\<rparr>)"
    by code_simp
  show ?thesis
    by (intro conjI) (rule a b c u n n' full common part jan)+
qed

section \<open>Properties of the password acquisition\<close>

declare get_password_with_strength_check.simps [simp del]
declare get_password_loop.simps [simp del]

lemma password_attempt_accepted:
  "password_attempt min_length ins = (Accepted password, ins') \<Longrightarrow>
   valid_password min_length password"
  by (cases ins; cases "tl ins")
    (auto simp: password_attempt_def valid_password_def split: input_event.splits if_splits)

lemma get_password_loop_rejected:
  "rejected_rounds min_length k ins = Some ins1 \<Longrightarrow> attempts + int k \<le> max_attempts \<Longrightarrow>
   get_password_loop min_length max_attempts attempts ins
   = get_password_loop min_length max_attempts (attempts + int k) ins1"
proof (induction k arbitrary: attempts ins)
  case 0
  then show ?case by simp
next
  case (Suc k)
  from Suc.prems(1) obtain ins0 where
    r: "password_attempt min_length ins = (Rejected, ins0)"
       "rejected_rounds min_length k ins0 = Some ins1"
    by (auto split: prod.splits attempt_result.splits)
  from Suc.prems(2) have lt: "attempts < max_attempts" by simp
  have "get_password_loop min_length max_attempts attempts ins
      = get_password_loop min_length max_attempts (attempts + 1) ins0"
    using lt r(1) by (subst get_password_loop.simps) simp
  also have "\<dots> = get_password_loop min_length max_attempts (attempts + 1 + int k) ins1"
    using Suc.prems(2) by (intro Suc.IH [OF r(2)]) simp
  also have "attempts + 1 + int k = attempts + int (Suc k)"
    by simp
  finally show ?case .
qed

lemma get_password_loop_result:
  "get_password_loop min_length max_attempts attempts ins = (res, a, ins') \<Longrightarrow>
   attempts \<le> a \<and> a \<le> max attempts max_attempts
   \<and> (case res of
        Inr password \<Rightarrow> valid_password min_length password
      | Inl e \<Rightarrow> e = ValueError ''Password entry cancelled''
                \<or> e = ValueError (''Failed to get valid password after '' @ str_int max_attempts
                                     @ '' attempts''))"
proof (induction min_length max_attempts attempts ins rule: get_password_loop.induct)
  case (1 min_length max_attempts attempts ins)
  show ?case
  proof (cases "attempts < max_attempts")
    case False
    with "1.prems" show ?thesis
      by (subst (asm) get_password_loop.simps) auto
  next
    case True
    obtain r ins1 where pa: "password_attempt min_length ins = (r, ins1)"
      by (cases "password_attempt min_length ins")
    show ?thesis
    proof (cases r)
      case Rejected
      with "1.prems" True pa
      have "get_password_loop min_length max_attempts (attempts + 1) ins1 = (res, a, ins')"
        by (subst (asm) get_password_loop.simps) simp
      from "1.IH" [OF True pa [symmetric] Rejected this] True show ?thesis
        by auto
    next
      case (Accepted p)
      with "1.prems" True pa have "res = Inr p" "a = attempts + 1"
        by (subst (asm) get_password_loop.simps, simp)+
      with True password_attempt_accepted [OF pa [unfolded Accepted]] show ?thesis
        by auto
    next
      case Cancelled
      with "1.prems" True pa have "res = Inl (ValueError ''Password entry cancelled'')"
        "a = attempts + 1"
        by (subst (asm) get_password_loop.simps, simp)+
      with True show ?thesis by auto
    qed
  qed
qed

lemma get_password_all_rejected:
  assumes "rejected_rounds min_length (nat max_attempts) ins = Some ins'"
  shows "get_password min_length max_attempts ins
         = (Inl (ValueError (''Failed to get valid password after '' @ str_int max_attempts
                               @ '' attempts'')), max 0 max_attempts, ins')"
proof (cases "0 \<le> max_attempts")
  case True
  have "get_password_loop min_length max_attempts 0 ins
      = get_password_loop min_length max_attempts (0 + int (nat max_attempts)) ins'"
    using assms by (rule get_password_loop_rejected) (simp add: True)
  also have "\<dots> = (Inl (ValueError (''Failed to get valid password after '' @ str_int max_attempts
                               @ '' attempts'')), max 0 max_attempts, ins')"
    using True by (subst get_password_loop.simps) simp
  finally show ?thesis by (simp add: get_password_def)
next
  case False
  with assms have "ins' = ins" by simp
  with False show ?thesis
    unfolding get_password_def by (subst get_password_loop.simps) simp
qed

lemma get_password_round:
  assumes "rejected_rounds min_length k ins = Some ins1" "int k < max_attempts"
  shows "password_attempt min_length ins1 = (Cancelled, ins2) \<Longrightarrow>
         get_password min_length max_attempts ins
         = (Inl (ValueError ''Password entry cancelled''), int k + 1, ins2)"
    and "password_attempt min_length ins1 = (Accepted password, ins2) \<Longrightarrow>
         get_password min_length max_attempts ins = (Inr password, int k + 1, ins2)"
proof -
  have e: "get_password min_length max_attempts ins
      = get_password_loop min_length max_attempts (int k) ins1"
    using get_password_loop_rejected [OF assms(1), of 0 max_attempts] assms(2)
    by (simp add: get_password_def)
  show "password_attempt min_length ins1 = (Cancelled, ins2) \<Longrightarrow>
         get_password min_length max_attempts ins
         = (Inl (ValueError ''Password entry cancelled''), int k + 1, ins2)"
    unfolding e using assms(2) by (subst get_password_loop.simps) simp
  show "password_attempt min_length ins1 = (Accepted password, ins2) \<Longrightarrow>
         get_password min_length max_attempts ins = (Inr password, int k + 1, ins2)"
    unfolding e using assms(2) by (subst get_password_loop.simps) simp
qed

lemma strength_check_result:
  "get_password_with_strength_check ins = (res, rest) \<Longrightarrow>
   (case res of
      Inr password \<Rightarrow> valid_password 4 password
    | Inl e \<Rightarrow> (\<exists>a. get_password 4 3 ins = (Inl e, a, rest))
              \<or> e = KeyboardInterrupt \<or> e = EOFError
              \<or> e = ValueError ''Password entry cancelled''
              \<or> e = ValueError ''Failed to get valid password after 3 attempts'')"
proof (induction ins arbitrary: res rest rule: get_password_with_strength_check.induct)
  case (1 ins)
  obtain r a ins1 where gp: "get_password 4 3 ins = (r, a, ins1)"
    by (cases "get_password 4 3 ins")
  show ?case
  proof (cases r)
    case (Inl e)
    with "1.prems" gp have "res = Inl e" "rest = ins1"
      by (subst (asm) get_password_with_strength_check.simps, simp)+
    with gp Inl show ?thesis by auto
  next
    case (Inr pw)
    from get_password_loop_result [OF gp [unfolded get_password_def]] Inr
    have v: "valid_password 4 pw" by simp
    show ?thesis
    proof (cases "fst (validate_password_strength pw)")
      case True
      with "1.prems" gp Inr have "res = Inr pw"
        by (subst (asm) get_password_with_strength_check.simps) simp
      with v show ?thesis by simp
    next
      case False
      obtain c ins2 where ac: "ask_continue ins1 = (c, ins2)"
        by (cases "ask_continue ins1")
      show ?thesis
      proof (cases c)
        case (Inl e)
        with "1.prems" gp Inr False ac have "res = Inl e"
          by (subst (asm) get_password_with_strength_check.simps) simp
        moreover have "e = KeyboardInterrupt \<or> e = EOFError"
          using ac [unfolded Inl]
          by (induction ins1 rule: ask_continue.induct) (auto simp: Let_def split: if_splits)
        ultimately show ?thesis by auto
      next
        case (Inr b)
        show ?thesis
        proof (cases b)
          case True
          with "1.prems" gp \<open>r = Inr pw\<close> False ac Inr have "res = Inr pw"
            by (subst (asm) get_password_with_strength_check.simps) simp
          with v show ?thesis by simp
        next
          case b: False
          with "1.prems" gp \<open>r = Inr pw\<close> False ac Inr
          have rec: "get_password_with_strength_check ins2 = (res, rest)"
            by (subst (asm) get_password_with_strength_check.simps) simp
          have ih: "case res of
              Inr password \<Rightarrow> valid_password 4 password
            | Inl e \<Rightarrow> (\<exists>a. get_password 4 3 ins2 = (Inl e, a, rest))
              \<or> e = KeyboardInterrupt \<or> e = EOFError
              \<or> e = ValueError ''Password entry cancelled''
              \<or> e = ValueError ''Failed to get valid password after 3 attempts''"
            using "1.IH" [OF gp [symmetric] \<open>r = Inr pw\<close> refl False ac [symmetric] Inr
                eq_False [THEN iffD2, OF b] rec] .
          show ?thesis
          proof (cases res)
            case (Inr p)
            with ih show ?thesis by simp
          next
            case (Inl e)
            have "str_int 3 = ''3''" by code_simp
            with ih Inl get_password_loop_result [of 4 3 0 ins2 "Inl e" _ rest]
            show ?thesis by (auto simp: get_password_def)
          qed
        qed
      qed
    qed
  qed
qed

lemma strength_check_first_error:
  "get_password 4 3 ins = (Inl e, a, rest) \<Longrightarrow>
   get_password_with_strength_check ins = (Inl e, rest)"
  by (subst get_password_with_strength_check.simps) simp

lemma strength_check_prompt_error:
  "get_password 4 3 ins = (Inr password, a, ins1) \<Longrightarrow>
   \<not> fst (validate_password_strength password) \<Longrightarrow>
   ask_continue ins1 = (Inl e, rest) \<Longrightarrow>
   get_password_with_strength_check ins = (Inl e, rest)"
  by (subst get_password_with_strength_check.simps) simp

lemma strength_check_errors:
  assumes "get_password_with_strength_check ins = (Inl e, rest)"
  shows "e = ValueError ''Password entry cancelled''
       \<or> e = ValueError ''Failed to get valid password after 3 attempts''
       \<or> e = KeyboardInterrupt \<or> e = EOFError"
proof -
  have s: "str_int 3 = ''3''" by code_simp
  from strength_check_result [OF assms]
  have "(\<exists>a. get_password 4 3 ins = (Inl e, a, rest))
              \<or> e = KeyboardInterrupt \<or> e = EOFError
              \<or> e = ValueError ''Password entry cancelled''
              \<or> e = ValueError ''Failed to get valid password after 3 attempts''"
    by simp
  then show ?thesis
  proof (elim disjE exE)
    fix a assume "get_password 4 3 ins = (Inl e, a, rest)"
    from get_password_loop_result [OF this [unfolded get_password_def]] s
    show ?thesis by auto
  qed simp_all
qed

lemma main_credential_error:
  "1900 \<le> yr \<Longrightarrow> yr \<le> 2100 \<Longrightarrow> get_password_with_strength_check ins = (Inl e, rest) \<Longrightarrow>
   main env yr ins = Inl e"
  by (simp add: main_def get_secure_password_for_diary_def)

lemma main_needs_credential:
  assumes "main env yr ins = Inr (enc, doc)"
  shows "\<exists>password rest. get_password_with_strength_check ins = (Inr password, rest)
           \<and> valid_password 4 password
           \<and> enc = create_high_security_encryption password"
proof -
  obtain res rest where g: "get_password_with_strength_check ins = (res, rest)"
    by (cases "get_password_with_strength_check ins")
  show ?thesis
  proof (cases res)
    case (Inl e)
    with assms g show ?thesis
      by (simp add: main_def get_secure_password_for_diary_def split: if_splits)
  next
    case (Inr password)
    with strength_check_result [OF g] have "valid_password 4 password" by simp
    moreover from assms g Inr have "enc = create_high_security_encryption password"
      by (simp add: main_def get_secure_password_for_diary_def
            split: if_splits option.splits sum.splits prod.splits)
    ultimately show ?thesis using g Inr by blast
  qed
qed

lemma main_document:
  assumes "1900 \<le> yr" "yr \<le> 2100"
    and "get_password_with_strength_check ins = (Inr password, rest)"
    and "get_us_holidays yr \<noteq> None"
    and "images_usable env (check_image_files env)"
  shows "main env yr ins = Inr (create_high_security_encryption password, document yr)"
proof -
  from assms(1,2) have y: "1 \<le> yr" "yr \<le> 9999" by simp_all
  from assms(1-4) generate_diary_complete [OF y assms(5)] show ?thesis
    by (auto simp: main_def get_secure_password_for_diary_def DiaryGenerator_def)
qed

text \<open>
  C9, as the source has it. The password ''abcd'' passes \<^verbatim>\<open>get_password\<close> and is not
  strong, so \<^verbatim>\<open>get_password_with_strength_check\<close> asks "Continue with this password?" with
  \<^verbatim>\<open>input\<close>, outside every \<^verbatim>\<open>try\<close>. An interrupt at that prompt leaves
  \<^verbatim>\<open>get_password_with_strength_check\<close>, \<^verbatim>\<open>get_secure_password_for_diary\<close> and \<^verbatim>\<open>main\<close> as
  \<^verbatim>\<open>KeyboardInterrupt\<close>, not as \<^verbatim>\<open>ValueError\<close>.
\<close>

theorem interrupt_at_continue_prompt:
  "get_password 4 3 [Entered ''abcd'', Entered ''abcd'', Interrupt]
     = (Inr ''abcd'', 1, [Interrupt])
   \<and> validate_password_strength ''abcd''
     = (False, [UseEightCharacters, MixCharacterKinds, AvoidCommonPatterns])
   \<and> ask_continue [Interrupt] = (Inl KeyboardInterrupt, [])
   \<and> get_password_with_strength_check [Entered ''abcd'', Entered ''abcd'', Interrupt]
     = (Inl KeyboardInterrupt, [])
   \<and> get_secure_password_for_diary [Entered ''abcd'', Entered ''abcd'', Interrupt]
     = Inl KeyboardInterrupt
   \<and> main all_images 2024 [Entered ''abcd'', Entered ''abcd'', Interrupt]
     = Inl KeyboardInterrupt"
  by code_simp

text \<open>
  C9 amended. With the interactive input a sequence of entries:
  \<^item> when each of the \<^verbatim>\<open>max_attempts\<close> rounds of \<^verbatim>\<open>get_password\<close> is rejected (password too
    short, empty or whitespace only, confirmation different, or a prompt that fails),
    \<^verbatim>\<open>get_password\<close> raises the \<^verbatim>\<open>ValueError\<close> "Failed to get valid password after
    \<^verbatim>\<open>max_attempts\<close> attempts", having made \<^verbatim>\<open>max_attempts\<close> attempts;
  \<^item> when a password prompt is interrupted after \<open>k\<close> rejected rounds, \<open>k\<close> below
    \<^verbatim>\<open>max_attempts\<close>, it raises the \<^verbatim>\<open>ValueError\<close> "Password entry cancelled";
  \<^item> whatever the input, the attempts made are at most \<^verbatim>\<open>max_attempts\<close>, an error raised by
    \<^verbatim>\<open>get_password\<close> is one of these two, and a password returned has at least
    \<^verbatim>\<open>min_length\<close> characters and is not whitespace only;
  \<^item> when \<^verbatim>\<open>get_password()\<close> returns a password that is not strong and the prompt "Continue
    with this password?" is interrupted, \<^verbatim>\<open>get_password_with_strength_check\<close> raises
    \<^verbatim>\<open>KeyboardInterrupt\<close>; the errors it raises are the two \<^verbatim>\<open>ValueError\<close>s of
    \<^verbatim>\<open>get_password()\<close>, \<^verbatim>\<open>KeyboardInterrupt\<close> and \<^verbatim>\<open>EOFError\<close>;
  \<^item> in \<^verbatim>\<open>main\<close>, for a year from 1900 to 2100 and in every environment, both failures of the
    first \<^verbatim>\<open>get_password()\<close> (three attempts, four characters), the interrupt at the
    "Continue" prompt and every error of \<^verbatim>\<open>get_password_with_strength_check\<close> end the run
    with that error, and a document is produced only with the credential built from a
    password that \<^verbatim>\<open>get_password_with_strength_check\<close> returned, which satisfies the
    validation rules.
\<close>

theorem credential_errors:
  "(rejected_rounds min_length (nat max_attempts) ins = Some rest \<longrightarrow>
      get_password min_length max_attempts ins
      = (Inl (ValueError (''Failed to get valid password after '' @ str_int max_attempts
                            @ '' attempts'')), max 0 max_attempts, rest))
   \<and> (rejected_rounds min_length k ins = Some ins1 \<and> int k < max_attempts
        \<and> password_attempt min_length ins1 = (Cancelled, rest) \<longrightarrow>
      get_password min_length max_attempts ins
      = (Inl (ValueError ''Password entry cancelled''), int k + 1, rest))
   \<and> (get_password min_length max_attempts ins = (res, attempts, rest) \<longrightarrow>
      0 \<le> attempts \<and> attempts \<le> max 0 max_attempts \<and> length rest \<le> length ins
      \<and> (case res of
            Inr password \<Rightarrow> valid_password min_length password
          | Inl e \<Rightarrow> e = ValueError ''Password entry cancelled''
                    \<or> e = ValueError (''Failed to get valid password after ''
                                         @ str_int max_attempts @ '' attempts'')))
   \<and> (get_password 4 3 ins = (Inr password, attempts, Interrupt # rest)
        \<and> \<not> fst (validate_password_strength password) \<longrightarrow>
      get_password_with_strength_check ins = (Inl KeyboardInterrupt, rest))
   \<and> (get_password_with_strength_check ins = (Inl e, rest) \<longrightarrow>
      e = ValueError ''Password entry cancelled''
      \<or> e = ValueError ''Failed to get valid password after 3 attempts''
      \<or> e = KeyboardInterrupt \<or> e = EOFError)
   \<and> (1900 \<le> yr \<and> yr \<le> 2100 \<and> rejected_rounds 4 3 ins = Some rest \<longrightarrow>
      main env yr ins = Inl (ValueError ''Failed to get valid password after 3 attempts''))
   \<and> (1900 \<le> yr \<and> yr \<le> 2100 \<and> rejected_rounds 4 k ins = Some ins1 \<and> k < 3
        \<and> password_attempt 4 ins1 = (Cancelled, rest) \<longrightarrow>
      main env yr ins = Inl (ValueError ''Password entry cancelled''))
   \<and> (1900 \<le> yr \<and> yr \<le> 2100
        \<and> get_password 4 3 ins = (Inr password, attempts, Interrupt # rest)
        \<and> \<not> fst (validate_password_strength password) \<longrightarrow>
      main env yr ins = Inl KeyboardInterrupt)
   \<and> (1900 \<le> yr \<and> yr \<le> 2100 \<and> get_password_with_strength_check ins = (Inl e, rest) \<longrightarrow>
      main env yr ins = Inl e)
   \<and> (main env yr ins = Inr (enc, doc) \<longrightarrow>
      (\<exists>password rest. get_password_with_strength_check ins = (Inr password, rest)
         \<and> valid_password 4 password
         \<and> enc = create_high_security_encryption password))"
proof (intro conjI impI)
  assume "rejected_rounds min_length (nat max_attempts) ins = Some rest"
  then show "get_password min_length max_attempts ins
      = (Inl (ValueError (''Failed to get valid password after '' @ str_int max_attempts
                            @ '' attempts'')), max 0 max_attempts, rest)"
    by (rule get_password_all_rejected)
next
  assume "rejected_rounds min_length k ins = Some ins1 \<and> int k < max_attempts
        \<and> password_attempt min_length ins1 = (Cancelled, rest)"
  then show "get_password min_length max_attempts ins
      = (Inl (ValueError ''Password entry cancelled''), int k + 1, rest)"
    using get_password_round(1) by blast
next
  assume g: "get_password min_length max_attempts ins = (res, attempts, rest)"
  note r = get_password_loop_result [OF g [unfolded get_password_def]]
  from r show "0 \<le> attempts" by simp
  from r show "attempts \<le> max 0 max_attempts" by simp
  from g show "length rest \<le> length ins"
    unfolding get_password_def by (rule get_password_loop_length)
  from r show "case res of
            Inr password \<Rightarrow> valid_password min_length password
          | Inl e \<Rightarrow> e = ValueError ''Password entry cancelled''
                    \<or> e = ValueError (''Failed to get valid password after ''
                                         @ str_int max_attempts @ '' attempts'')"
    by simp
next
  assume a: "get_password 4 3 ins = (Inr password, attempts, Interrupt # rest)
        \<and> \<not> fst (validate_password_strength password)"
  have "ask_continue (Interrupt # rest) = (Inl KeyboardInterrupt, rest)" by simp
  with a show "get_password_with_strength_check ins = (Inl KeyboardInterrupt, rest)"
    by (intro strength_check_prompt_error [of ins password attempts "Interrupt # rest"]) simp_all
next
  assume "get_password_with_strength_check ins = (Inl e, rest)"
  then show "e = ValueError ''Password entry cancelled''
      \<or> e = ValueError ''Failed to get valid password after 3 attempts''
      \<or> e = KeyboardInterrupt \<or> e = EOFError"
    by (rule strength_check_errors)
next
  assume a: "1900 \<le> yr \<and> yr \<le> 2100 \<and> rejected_rounds 4 3 ins = Some rest"
  have s: "str_int 3 = ''3''" by code_simp
  from a have "rejected_rounds 4 (nat 3) ins = Some rest" by simp
  from get_password_all_rejected [OF this]
  have "get_password 4 3 ins
      = (Inl (ValueError ''Failed to get valid password after 3 attempts''), 3, rest)"
    by (simp add: s)
  from strength_check_first_error [OF this] a
  show "main env yr ins = Inl (ValueError ''Failed to get valid password after 3 attempts'')"
    by (simp add: main_credential_error)
next
  assume a: "1900 \<le> yr \<and> yr \<le> 2100 \<and> rejected_rounds 4 k ins = Some ins1 \<and> k < 3
        \<and> password_attempt 4 ins1 = (Cancelled, rest)"
  then have "get_password 4 3 ins = (Inl (ValueError ''Password entry cancelled''), int k + 1, rest)"
    by (intro get_password_round(1) [of 4 k ins ins1]) simp_all
  from strength_check_first_error [OF this] a
  show "main env yr ins = Inl (ValueError ''Password entry cancelled'')"
    by (simp add: main_credential_error)
next
  assume a: "1900 \<le> yr \<and> yr \<le> 2100
        \<and> get_password 4 3 ins = (Inr password, attempts, Interrupt # rest)
        \<and> \<not> fst (validate_password_strength password)"
  have "ask_continue (Interrupt # rest) = (Inl KeyboardInterrupt, rest)" by simp
  with a have "get_password_with_strength_check ins = (Inl KeyboardInterrupt, rest)"
    by (intro strength_check_prompt_error [of ins password attempts "Interrupt # rest"]) simp_all
  with a show "main env yr ins = Inl KeyboardInterrupt"
    by (simp add: main_credential_error)
next
  assume "1900 \<le> yr \<and> yr \<le> 2100 \<and> get_password_with_strength_check ins = (Inl e, rest)"
  then show "main env yr ins = Inl e"
    by (simp add: main_credential_error)
next
  assume "main env yr ins = Inr (enc, doc)"
  then show "\<exists>password rest. get_password_with_strength_check ins = (Inr password, rest)
         \<and> valid_password 4 password
         \<and> enc = create_high_security_encryption password"
    by (rule main_needs_credential)
qed

theorem credential_errors_witness:
  "rejected_rounds 4 (nat 3) [Entered ''ab'', Entered ''    '', Entered ''abcd'', Entered ''abce''] = Some []
   \<and> get_password 4 3 [Entered ''ab'', Entered ''    '', Entered ''abcd'', Entered ''abce'']
       = (Inl (ValueError ''Failed to get valid password after 3 attempts''), 3, [])
   \<and> main no_images 2024 [Entered ''ab'', Entered ''    '', Entered ''abcd'', Entered ''abce'']
       = Inl (ValueError ''Failed to get valid password after 3 attempts'')
   \<and> rejected_rounds 4 1 [Entered ''ab'', Interrupt] = Some [Interrupt]
   \<and> password_attempt 4 [Interrupt] = (Cancelled, [])
   \<and> get_password 4 3 [Entered ''ab'', Interrupt] = (Inl (ValueError ''Password entry cancelled''), 2, [])
   \<and> main no_images 2024 [Entered ''ab'', Interrupt] = Inl (ValueError ''Password entry cancelled'')
   \<and> get_password 4 3 [Entered ''abcd'', Entered ''abcd'', Interrupt] = (Inr ''abcd'', 1, [Interrupt])
   \<and> valid_password 4 ''abcd''
   \<and> \<not> fst (validate_password_strength ''abcd'')
   \<and> get_password_with_strength_check [Entered ''abcd'', Entered ''abcd'', Interrupt]
       = (Inl KeyboardInterrupt, [])
   \<and> main all_images 2024 [Entered ''abcd'', Entered ''abcd'', Interrupt] = Inl KeyboardInterrupt
   \<and> get_password_with_strength_check [Entered ''abcd'', Entered ''abcd''] = (Inl EOFError, [])
   \<and> main all_images 2024 [Entered ''abcd'', Entered ''abcd''] = Inl EOFError
   \<and> (\<exists>doc. main all_images 2024 [Entered ''Xy7!longer'', Entered ''Xy7!longer'']
          = Inr (create_high_security_encryption ''Xy7!longer'', doc))
   \<and> valid_password 4 ''Xy7!longer''"
proof -
  note c1 = credential_errors [THEN conjunct1, rule_format]
  note c2 = credential_errors [THEN conjunct2, THEN conjunct1, rule_format]
  note c3 = credential_errors [THEN conjunct2, THEN conjunct2, THEN conjunct1, rule_format]
  note c4 = credential_errors [THEN conjunct2, THEN conjunct2, THEN conjunct2, THEN conjunct1,
    rule_format]
  note c6 = credential_errors [THEN conjunct2, THEN conjunct2, THEN conjunct2, THEN conjunct2,
    THEN conjunct2, THEN conjunct1, rule_format]
  note c7 = credential_errors [THEN conjunct2, THEN conjunct2, THEN conjunct2, THEN conjunct2,
    THEN conjunct2, THEN conjunct2, THEN conjunct1, rule_format]
  note c8 = credential_errors [THEN conjunct2, THEN conjunct2, THEN conjunct2, THEN conjunct2,
    THEN conjunct2, THEN conjunct2, THEN conjunct2, THEN conjunct1, rule_format]
  note c9 = credential_errors [THEN conjunct2, THEN conjunct2, THEN conjunct2, THEN conjunct2,
    THEN conjunct2, THEN conjunct2, THEN conjunct2, THEN conjunct2, THEN conjunct1, rule_format]
  note c10 = credential_errors [THEN conjunct2, THEN conjunct2, THEN conjunct2, THEN conjunct2,
    THEN conjunct2, THEN conjunct2, THEN conjunct2, THEN conjunct2, THEN conjunct2, rule_format]
  have s: "str_int 3 = ''3''" by code_simp
  have y: "(1900::int) \<le> 2024" "(2024::int) \<le> 2100" by simp_all
  have w1: "rejected_rounds 4 (nat 3) [Entered ''ab'', Entered ''    '', Entered ''abcd'', Entered ''abce''] = Some []"
    by code_simp
  from c1 [OF w1] have g1: "get_password 4 3 [Entered ''ab'', Entered ''    '', Entered ''abcd'', Entered ''abce'']
       = (Inl (ValueError ''Failed to get valid password after 3 attempts''), 3, [])"
    by (simp add: s)
  from w1 have "rejected_rounds 4 3 [Entered ''ab'', Entered ''    '', Entered ''abcd'', Entered ''abce''] = Some []" by simp
  with y have "(1900::int) \<le> 2024 \<and> (2024::int) \<le> 2100 \<and> rejected_rounds 4 3 [Entered ''ab'', Entered ''    '', Entered ''abcd'', Entered ''abce''] = Some []"
    by simp
  from c6 [OF this]
  have m1: "main no_images 2024 [Entered ''ab'', Entered ''    '', Entered ''abcd'', Entered ''abce'']
       = Inl (ValueError ''Failed to get valid password after 3 attempts'')" .
  have w2: "rejected_rounds 4 1 [Entered ''ab'', Interrupt] = Some [Interrupt]"
    by code_simp
  have w2': "password_attempt 4 [Interrupt] = (Cancelled, [])"
    by code_simp
  from w2 w2' have "rejected_rounds 4 1 [Entered ''ab'', Interrupt] = Some [Interrupt] \<and> int 1 < 3
      \<and> password_attempt 4 [Interrupt] = (Cancelled, [])"
    by simp
  from c2 [OF this]
  have g2: "get_password 4 3 [Entered ''ab'', Interrupt] = (Inl (ValueError ''Password entry cancelled''), 2, [])"
    by simp
  from y w2 w2' have "(1900::int) \<le> 2024 \<and> (2024::int) \<le> 2100
      \<and> rejected_rounds 4 1 [Entered ''ab'', Interrupt] = Some [Interrupt] \<and> (1::nat) < 3
      \<and> password_attempt 4 [Interrupt] = (Cancelled, [])"
    by simp
  from c7 [OF this]
  have m2: "main no_images 2024 [Entered ''ab'', Interrupt] = Inl (ValueError ''Password entry cancelled'')" .
  have w3: "get_password 4 3 [Entered ''abcd'', Entered ''abcd'', Interrupt] = (Inr ''abcd'', 1, [Interrupt])"
    by code_simp
  from c3 [OF w3] have v3: "valid_password 4 ''abcd''"
    by simp
  have k3: "\<not> fst (validate_password_strength ''abcd'')"
    by code_simp
  from w3 k3 have "get_password 4 3 [Entered ''abcd'', Entered ''abcd'', Interrupt] = (Inr ''abcd'', 1, Interrupt # [])
      \<and> \<not> fst (validate_password_strength ''abcd'')"
    by simp
  from c4 [OF this]
  have w6: "get_password_with_strength_check [Entered ''abcd'', Entered ''abcd'', Interrupt] = (Inl KeyboardInterrupt, [])" .
  from y w3 k3 have "(1900::int) \<le> 2024 \<and> (2024::int) \<le> 2100
      \<and> get_password 4 3 [Entered ''abcd'', Entered ''abcd'', Interrupt] = (Inr ''abcd'', 1, Interrupt # [])
      \<and> \<not> fst (validate_password_strength ''abcd'')"
    by simp
  from c8 [OF this]
  have m6: "main all_images 2024 [Entered ''abcd'', Entered ''abcd'', Interrupt] = Inl KeyboardInterrupt" .
  have w8: "get_password_with_strength_check [Entered ''abcd'', Entered ''abcd''] = (Inl EOFError, [])"
    by code_simp
  with y have "(1900::int) \<le> 2024 \<and> (2024::int) \<le> 2100
      \<and> get_password_with_strength_check [Entered ''abcd'', Entered ''abcd''] = (Inl EOFError, [])"
    by simp
  from c9 [OF this]
  have m8: "main all_images 2024 [Entered ''abcd'', Entered ''abcd''] = Inl EOFError" .
  have w7: "get_password_with_strength_check [Entered ''Xy7!longer'', Entered ''Xy7!longer''] = (Inr ''Xy7!longer'', [])"
    by code_simp
  have gh: "get_us_holidays 2024 \<noteq> None"
    by code_simp
  have m7: "main all_images 2024 [Entered ''Xy7!longer'', Entered ''Xy7!longer'']
          = Inr (create_high_security_encryption ''Xy7!longer'', document 2024)"
    by (rule main_document [OF y w7 gh usable_all_images])
  from c10 [OF m7] w7 have v7: "valid_password 4 ''Xy7!longer''"
    by auto
  have m7': "\<exists>doc. main all_images 2024 [Entered ''Xy7!longer'', Entered ''Xy7!longer'']
          = Inr (create_high_security_encryption ''Xy7!longer'', doc)"
    by (rule exI [of _ "document 2024"]) (rule m7)
  show ?thesis
    by (intro conjI) (rule w1 g1 m1 w2 w2' g2 m2 w3 v3 k3 w6 m6 w8 m8 m7' v7)+
qed

end
